theory Spec2Isabelle
  imports Complex_Main "HOL-Library.Monad_Syntax"
begin

section \<open>Numbers\<close>

text \<open>
  The program is TypeScript; every quantity is a JavaScript \<^verbatim>\<open>number\<close>. The model takes
  numbers to be real numbers: finite, never NaN, with exact arithmetic and the exact
  mathematical \<^verbatim>\<open>sin\<close>, \<^verbatim>\<open>cos\<close>, \<^verbatim>\<open>asin\<close>, \<^verbatim>\<open>acos\<close>. Where JavaScript's
  arithmetic differs from the field operations of \<open>real\<close> in a way that decides a branch
  (division by zero, the remainder operator, \<^verbatim>\<open>Math.atan2\<close>), the behaviour is written out.
\<close>

text \<open>\<^verbatim>\<open>Math.atan2(y, x)\<close>: the angle of the point \<open>(x, y)\<close>, in \<open>(-pi, pi]\<close>.\<close>

definition Math_atan2 :: "real \<Rightarrow> real \<Rightarrow> real" where
  "Math_atan2 y x =
     (if 0 < x then arctan (y / x)
      else if x < 0 then (if 0 \<le> y then arctan (y / x) + pi else arctan (y / x) - pi)
      else if 0 < y then pi / 2
      else if y < 0 then - (pi / 2)
      else 0)"

text \<open>The operator \<^verbatim>\<open>a % b\<close>: the remainder of the division truncated towards zero, with
  the sign of \<open>a\<close>.\<close>

definition js_trunc :: "real \<Rightarrow> int" where
  "js_trunc r = (if 0 \<le> r then \<lfloor>r\<rfloor> else \<lceil>r\<rceil>)"

definition js_rem :: "real \<Rightarrow> real \<Rightarrow> real" where
  "js_rem a b = a - b * of_int (js_trunc (a / b))"

section \<open>locator.ts\<close>

definition RADIAN :: real where
  "RADIAN = 180 / pi"

text \<open>arc length for 1 degree, 60 Nautical Miles\<close>

definition ARC_IN_KM :: real where
  "ARC_IN_KM = 111.2"

record qrb_result =
  res :: string
  distance :: real
  azimuth :: real

text \<open>Lines 70-79 of \<^verbatim>\<open>qrb\<close> (Prevent ACOS() Domain Error), applied to one latitude.\<close>

definition qrb_pole_guard :: "real \<Rightarrow> real" where
  "qrb_pole_guard lat =
     (if lat = 90 then 89.999999999 else if lat = - 90 then - 89.999999999 else lat)"

text \<open>The local \<^verbatim>\<open>tmp\<close> of \<^verbatim>\<open>qrb\<close> (lines 70-89): the cosine of the arc between the two
  points, after the pole guard and the conversion to radians.\<close>

definition qrb_tmp :: "real \<Rightarrow> real \<Rightarrow> real \<Rightarrow> real \<Rightarrow> real" where
  "qrb_tmp lon1 lat1 lon2 lat2 =
     (let lat1r = qrb_pole_guard lat1 / RADIAN;
          lon1r = lon1 / RADIAN;
          lat2r = qrb_pole_guard lat2 / RADIAN;
          lon2r = lon2 / RADIAN;
          delta_long = lon2r - lon1r
      in sin lat1r * sin lat2r + cos lat1r * cos lat2r * cos delta_long)"

text \<open>Lines 131-144 of \<^verbatim>\<open>qrb\<close>: the bearing. The arguments are already in radians.
  \<^verbatim>\<open>az % 2 * Math.PI\<close> is \<^verbatim>\<open>(az % 2) * Math.PI\<close>.\<close>

definition qrb_azimuth :: "real \<Rightarrow> real \<Rightarrow> real \<Rightarrow> real \<Rightarrow> real" where
  "qrb_azimuth lon1r lat1r lon2r lat2r =
     (let az = Math_atan2 (sin (lon1r - lon2r) * cos lat2r)
                 (cos lat1r * sin lat2r - sin lat1r * cos lat2r * cos (lon1r - lon2r));
          az = js_rem az 2 * pi;
          az = RADIAN * az
      in if lon1r > lon2r then - (az - 360)
         else if az \<ge> 0 then az
         else - az)"

definition qrb :: "real \<Rightarrow> real \<Rightarrow> real \<Rightarrow> real \<Rightarrow> qrb_result" where
  "qrb lon1 lat1 lon2 lat2 =
     (if (lat1 > 90 \<or> lat1 < - 90) \<or> (lat2 > 90 \<or> lat2 < - 90)
      then \<lparr>res = ''RIG_EINVAL'', distance = 0, azimuth = 0\<rparr>
      else if (lon1 > 180 \<or> lon1 < - 180) \<or> (lon2 > 180 \<or> lon2 < - 180)
      then \<lparr>res = ''RIG_EINVAL'', distance = 0, azimuth = 0\<rparr>
      else
        let tmp = qrb_tmp lon1 lat1 lon2 lat2 in
        if tmp > 0.999999999999999
        then \<lparr>res = ''RIG_OK'', distance = 0, azimuth = 0\<rparr>
        else if tmp < - 0.999999
        then \<lparr>res = ''RIG_OK'', distance = 180 * ARC_IN_KM, azimuth = 0\<rparr>
        else
          let arc = arccos tmp in
          \<lparr>res = ''RIG_OK'',
           distance = ARC_IN_KM * RADIAN * arc,
           azimuth = qrb_azimuth (lon1 / RADIAN) (qrb_pole_guard lat1 / RADIAN)
                       (lon2 / RADIAN) (qrb_pole_guard lat2 / RADIAN)\<rparr>)"

text \<open>The coordinates \<^verbatim>\<open>qrb\<close> accepts.\<close>

definition valid_lat :: "real \<Rightarrow> bool" where
  "valid_lat lat = (- 90 \<le> lat \<and> lat \<le> 90)"

definition valid_lon :: "real \<Rightarrow> bool" where
  "valid_lon lon = (- 180 \<le> lon \<and> lon \<le> 180)"

section \<open>satmap.ts\<close>

definition de2ra :: real where
  "de2ra = pi / 180"

text \<open>Earth radius km\<close>

definition xkmper :: real where
  "xkmper = 6378.135"

record Sat =
  ssplat :: real
  ssplon :: real
  footprint :: real

record SatMap =
  left_side_lon :: real
  width :: real
  height :: real
  x0 :: real
  y0 :: real

text \<open>The type \<^verbatim>\<open>XY\<close>; its fields \<^verbatim>\<open>x\<close> and \<^verbatim>\<open>y\<close> are \<open>xc\<close> and \<open>yc\<close> here. Every
  element of the 360-point array is a fresh object (lines 133 and 136), so no two slots
  alias and an array of points is a list of values.\<close>

record XY =
  xc :: real
  yc :: real

text \<open>Reading a property of \<^verbatim>\<open>undefined\<close> (an array read out of range) throws.\<close>

datatype error = TypeError

text \<open>What the code writes to the console: the two \<^verbatim>\<open>console.error\<close> calls with their
  arguments, \<^verbatim>\<open>console.log("WARPED")\<close> and \<^verbatim>\<open>console.log('split n')\<close>.\<close>

datatype log_msg = Bad_North real real | Bad_South real real | WARPED | Split nat

subsection \<open>The while loops\<close>

text \<open>\<^verbatim>\<open>while (v < bnd) v += step\<close> and \<^verbatim>\<open>while (v > bnd) v -= step\<close>. With a step that is
  not positive they can run forever: the value is then \<open>None\<close>.\<close>

partial_function (option) while_lt :: "real \<Rightarrow> real \<Rightarrow> real \<Rightarrow> real option" where
  "while_lt bnd step v = (if v < bnd then while_lt bnd step (v + step) else Some v)"

partial_function (option) while_gt :: "real \<Rightarrow> real \<Rightarrow> real \<Rightarrow> real option" where
  "while_gt bnd step v = (if v > bnd then while_gt bnd step (v - step) else Some v)"

subsection \<open>Pole coverage\<close>

text \<open>Check whether the footprint covers the North pole. The result is the console output
  and the returned flag.\<close>

definition north_pole_is_covered :: "Sat \<Rightarrow> log_msg list \<times> bool" where
  "north_pole_is_covered sat =
     (let r = qrb (ssplon sat) (ssplat sat) 0 90
      in ((if res r \<noteq> ''RIG_OK'' then [Bad_North (ssplon sat) (ssplat sat)] else []),
          distance r \<le> 0.5 * footprint sat))"

text \<open>Check whether the footprint covers the South pole.\<close>

definition south_pole_is_covered :: "Sat \<Rightarrow> log_msg list \<times> bool" where
  "south_pole_is_covered sat =
     (let r = qrb (ssplon sat) (ssplat sat) 0 (- 90)
      in ((if res r \<noteq> ''RIG_OK'' then [Bad_South (ssplon sat) (ssplat sat)] else []),
          distance r \<le> 0.5 * footprint sat))"

text \<open>\<^verbatim>\<open>north_pole_is_covered(sat) || south_pole_is_covered(sat)\<close>: the second call is made
  only when the first returns false.\<close>

definition pole_is_covered :: "Sat \<Rightarrow> log_msg list \<times> bool" where
  "pole_is_covered sat =
     (let (lg1, north) = north_pole_is_covered sat
      in if north then (lg1, True)
         else (let (lg2, south) = south_pole_is_covered sat in (lg1 @ lg2, south)))"

subsection \<open>Helpers\<close>

text \<open>The function \<^verbatim>\<open>arccos(x, y)\<close> of satmap.ts.\<close>

definition arccos_xy :: "real \<Rightarrow> real \<Rightarrow> real" where
  "arccos_xy x y =
     (if x \<noteq> 0 \<and> y \<noteq> 0 then
        (if y > 0 then arccos (x / y)
         else if y < 0 then pi + arccos (x / y)
         else 0)
      else 0)"

text \<open>\<^verbatim>\<open>Math.abs(num / dem) > 1.0\<close>. In JavaScript \<open>num / 0\<close> is an infinity when \<open>num\<close> is
  not zero, and the comparison holds; \<open>0 / 0\<close> is NaN, and the comparison fails.\<close>

definition abs_quotient_gt_1 :: "real \<Rightarrow> real \<Rightarrow> bool" where
  "abs_quotient_gt_1 num dem = (if dem = 0 then num \<noteq> 0 else \<bar>num / dem\<bar> > 1)"

text \<open>Assumes that -180 <= lon <= 180 and -90 <= lat <= 90\<close>

definition lonlat_to_xy :: "SatMap \<Rightarrow> real \<Rightarrow> real \<Rightarrow> (real \<times> real) option" where
  "lonlat_to_xy p lon lat =
     do {
       let x = x0 p + (lon - left_side_lon p) * width p / 360;
       let y = y0 p + (90 - lat) * height p / 180;
       x \<leftarrow> while_lt 0 (width p) x;
       x \<leftarrow> while_gt (width p) (width p) x;
       Some (x, y)
     }"

text \<open>Mirror the footprint longitude.\<close>

definition mirror_lon :: "Sat \<Rightarrow> real \<Rightarrow> real \<Rightarrow> (bool \<times> real) option" where
  "mirror_lon sat rangelon mapbreak =
     do {
       let diff = ssplon sat - rangelon;
       diff \<leftarrow> while_lt 0 360 diff;
       diff \<leftarrow> while_gt 360 360 diff;
       let mlon = ssplon sat + \<bar>diff\<bar>;
       mlon \<leftarrow> while_gt 180 360 mlon;
       mlon \<leftarrow> while_lt (- 180) 360 mlon;
       let warped =
         (if (ssplon sat \<ge> mapbreak \<and> ssplon sat < mapbreak + 180)
             \<or> (ssplon sat < mapbreak - 180 \<and> ssplon sat \<ge> mapbreak - 360)
          then
            (if (rangelon \<ge> mapbreak \<and> rangelon < mapbreak + 180)
                \<or> (rangelon < mapbreak - 180 \<and> rangelon \<ge> mapbreak - 360)
             then False else True)
          else
            (if (mlon \<ge> mapbreak \<and> mlon < mapbreak + 180)
                \<or> (mlon < mapbreak - 180 \<and> mlon \<ge> mapbreak - 360)
             then True else False));
       Some (warped, mlon)
     }"

definition goo_canvas_points_new :: "nat \<Rightarrow> XY list" where
  "goo_canvas_points_new n = replicate n \<lparr>xc = 0, yc = 0\<rparr>"

subsection \<open>The range circle\<close>

text \<open>Lines 99-113, the point of the range circle at azimuth \<open>azi\<close> degrees: the console
  output of the call of \<^verbatim>\<open>north_pole_is_covered\<close> (made only when \<open>azi\<close> is 0), and
  \<open>rangelon\<close> and \<open>rangelat\<close> in radians.\<close>

definition range_circle_rad :: "Sat \<Rightarrow> nat \<Rightarrow> log_msg list \<times> real \<times> real" where
  "range_circle_rad sat azi =
     (let ssplat' = ssplat sat * de2ra;
          ssplon' = ssplon sat * de2ra;
          beta = (0.5 * footprint sat) / xkmper;
          azimuth' = de2ra * real azi;
          rangelat = arcsin (sin ssplat' * cos beta + cos azimuth' * sin beta * cos ssplat');
          num = cos beta - (sin ssplat' * sin rangelat);
          dem = cos ssplat' * cos rangelat;
          (lg, north) = (if azi = 0 then north_pole_is_covered sat else ([], False));
          rangelon =
            (if azi = 0 \<and> north then ssplon' + pi
             else if abs_quotient_gt_1 num dem then ssplon'
             else if (180 - real azi) \<ge> 0 then ssplon' - arccos_xy num dem
             else ssplon' + arccos_xy num dem)
      in (lg, rangelon, rangelat))"

text \<open>Lines 115-124: \<open>rangelon\<close> is brought into \<open>[-pi, pi]\<close> and both angles are
  converted to degrees.\<close>

definition range_circle :: "Sat \<Rightarrow> nat \<Rightarrow> (log_msg list \<times> real \<times> real) option" where
  "range_circle sat azi =
     (case range_circle_rad sat azi of (lg, rangelon, rangelat) \<Rightarrow>
        do {
          rangelon \<leftarrow> while_lt (- pi) (pi * 2) rangelon;
          rangelon \<leftarrow> while_gt pi (pi * 2) rangelon;
          Some (lg, rangelon / de2ra, rangelat / de2ra)
        })"

text \<open>The state of the loop of \<^verbatim>\<open>calculate_footprint\<close>: the console output so far,
  \<^verbatim>\<open>warped\<close> and \<^verbatim>\<open>points1\<close>.\<close>

type_synonym footprint_state = "log_msg list \<times> bool \<times> XY list"

text \<open>One pass of the loop body, lines 99-136.\<close>

definition footprint_step ::
  "SatMap \<Rightarrow> Sat \<Rightarrow> nat \<Rightarrow> footprint_state \<Rightarrow> footprint_state option" where
  "footprint_step satmap sat azi st =
     (case st of (lg, warped, points1) \<Rightarrow>
        do {
          (lg', rangelon, rangelat) \<leftarrow> range_circle sat azi;
          (warpedT, mlon) \<leftarrow> mirror_lon sat rangelon (left_side_lon satmap);
          (sx, sy) \<leftarrow> lonlat_to_xy satmap rangelon rangelat;
          (msx, msy) \<leftarrow> lonlat_to_xy satmap mlon rangelat;
          Some (lg @ lg', warped \<or> warpedT,
                points1[azi := \<lparr>xc = sx, yc = sy\<rparr>, 359 - azi := \<lparr>xc = msx, yc = msy\<rparr>])
        })"

text \<open>\<^verbatim>\<open>for (azi = 0; azi < 180; azi++)\<close>, over the list of the values of \<open>azi\<close>.\<close>

fun footprint_loop ::
  "SatMap \<Rightarrow> Sat \<Rightarrow> nat list \<Rightarrow> footprint_state \<Rightarrow> footprint_state option" where
  "footprint_loop satmap sat [] st = Some st"
| "footprint_loop satmap sat (azi # azis) st =
     (case footprint_step satmap sat azi st of
        None \<Rightarrow> None
      | Some st' \<Rightarrow> footprint_loop satmap sat azis st')"

subsection \<open>Sorting\<close>

text \<open>\<^verbatim>\<open>Array.prototype.sort\<close> is stable, and the comparators \<^verbatim>\<open>a.x - b.x\<close> and
  \<^verbatim>\<open>a.y - b.y\<close> order real numbers: the sort is the stable sort by that key.

  \<^verbatim>\<open>sort_points_x\<close> then writes four slots. Reading \<^verbatim>\<open>points[0].y\<close> of an empty array
  throws; writing \<^verbatim>\<open>points[1]\<close> of an array of one element appends.\<close>

definition sort_points_x :: "SatMap \<Rightarrow> Sat \<Rightarrow> XY list \<Rightarrow> error + XY list" where
  "sort_points_x satmap sat points =
     (let points = sort_key xc points in
      if points = [] then Inl TypeError
      else
        let new1 = \<lparr>xc = x0 satmap, yc = yc (points ! 0)\<rparr>;
            points = (if 1 < length points then points[1 := new1] else points @ [new1]);
            n = length points;
            points = points[n - 2 := \<lparr>xc = x0 satmap + width satmap, yc = yc (points ! (n - 1))\<rparr>]
        in if ssplat sat > 0
           then Inr (points[0 := \<lparr>xc = x0 satmap, yc = y0 satmap\<rparr>,
                            n - 1 := \<lparr>xc = x0 satmap + width satmap, yc = y0 satmap\<rparr>])
           else Inr (points[0 := \<lparr>xc = x0 satmap, yc = y0 satmap + height satmap\<rparr>,
                            n - 1 := \<lparr>xc = x0 satmap + width satmap,
                                       yc = y0 satmap + height satmap\<rparr>]))"

definition sort_points_y :: "SatMap \<Rightarrow> Sat \<Rightarrow> XY list \<Rightarrow> XY list" where
  "sort_points_y satmap sat points = sort_key yc points"

subsection \<open>Splitting\<close>

text \<open>\<^verbatim>\<open>while (P(points1[i].x)) i++\<close>: the index at which the scan stops. Reading past the
  end of the array throws.\<close>

function scan_up :: "(real \<Rightarrow> bool) \<Rightarrow> XY list \<Rightarrow> nat \<Rightarrow> error + nat" where
  "scan_up P points1 i =
     (if i \<ge> length points1 then Inl TypeError
      else if P (xc (points1 ! i)) then scan_up P points1 (i + 1)
      else Inr i)"
  by pat_completeness auto
termination
  by (relation "measure (\<lambda>(P, points1, i). length points1 - i)") auto

text \<open>\<^verbatim>\<open>while (P(points1[i].x)) { tps2.push(points1[i]); i++ }\<close>.\<close>

function copy_up :: "(real \<Rightarrow> bool) \<Rightarrow> XY list \<Rightarrow> nat \<Rightarrow> XY list \<Rightarrow> error + nat \<times> XY list" where
  "copy_up P points1 i tps2 =
     (if i \<ge> length points1 then Inl TypeError
      else if P (xc (points1 ! i)) then copy_up P points1 (i + 1) (tps2 @ [points1 ! i])
      else Inr (i, tps2))"
  by pat_completeness auto
termination
  by (relation "measure (\<lambda>(P, points1, i, tps2). length points1 - i)") auto

text \<open>The same two loops with \<^verbatim>\<open>i--\<close>. The index can reach \<open>-1\<close>, where the read throws.\<close>

function scan_down :: "(real \<Rightarrow> bool) \<Rightarrow> XY list \<Rightarrow> int \<Rightarrow> error + int" where
  "scan_down P points1 i =
     (if i < 0 \<or> i \<ge> int (length points1) then Inl TypeError
      else if P (xc (points1 ! nat i)) then scan_down P points1 (i - 1)
      else Inr i)"
  by pat_completeness auto
termination
  by (relation "measure (\<lambda>(P, points1, i). nat (i + 1))") auto

function copy_down :: "(real \<Rightarrow> bool) \<Rightarrow> XY list \<Rightarrow> int \<Rightarrow> XY list \<Rightarrow> error + int \<times> XY list" where
  "copy_down P points1 i tps2 =
     (if i < 0 \<or> i \<ge> int (length points1) then Inl TypeError
      else if P (xc (points1 ! nat i)) then copy_down P points1 (i - 1) (tps2 @ [points1 ! nat i])
      else Inr (i, tps2))"
  by pat_completeness auto
termination
  by (relation "measure (\<lambda>(P, points1, i, tps2). nat (i + 1))") auto

text \<open>The four loops are unfolded one pass at a time in the proofs.\<close>

declare scan_up.simps [simp del] copy_up.simps [simp del]
  scan_down.simps [simp del] copy_down.simps [simp del]

text \<open>\<^verbatim>\<open>points[i].x = v\<close>; it throws when \<open>i\<close> is not an index of the array.\<close>

definition set_x :: "XY list \<Rightarrow> int \<Rightarrow> real \<Rightarrow> error + XY list" where
  "set_x points i v =
     (if 0 \<le> i \<and> i < int (length points)
      then Inr (points[nat i := (points ! nat i)\<lparr>xc := v\<rparr>])
      else Inl TypeError)"

text \<open>Lines 459-477: stretch end points to map borders.\<close>

definition stretch_end_points ::
  "SatMap \<Rightarrow> XY list \<Rightarrow> XY list \<Rightarrow> error + XY list \<times> XY list" where
  "stretch_end_points satmap tps1 tps2 =
     (let n1 = int (length tps1);
          n2 = int (length tps2);
          points1 = tps1;
          points2 = tps2
      in if points1 = [] then Inl TypeError
         else if xc (points1 ! 0) > (x0 satmap + width satmap / 2) then
           (case set_x points1 0 (x0 satmap + width satmap) of Inl e \<Rightarrow> Inl e | Inr points1 \<Rightarrow>
            case set_x points1 (n1 - 1) (x0 satmap + width satmap) of Inl e \<Rightarrow> Inl e | Inr points1 \<Rightarrow>
            case set_x points2 0 (x0 satmap) of Inl e \<Rightarrow> Inl e | Inr points2 \<Rightarrow>
            case set_x points2 (n2 - 1) (x0 satmap) of Inl e \<Rightarrow> Inl e | Inr points2 \<Rightarrow>
            Inr (points1, points2))
         else
           (case set_x points2 0 (x0 satmap + width satmap) of Inl e \<Rightarrow> Inl e | Inr points2 \<Rightarrow>
            case set_x points2 (n2 - 1) (x0 satmap + width satmap) of Inl e \<Rightarrow> Inl e | Inr points2 \<Rightarrow>
            case set_x points1 0 (x0 satmap) of Inl e \<Rightarrow> Inl e | Inr points1 \<Rightarrow>
            case set_x points1 (n1 - 1) (x0 satmap) of Inl e \<Rightarrow> Inl e | Inr points1 \<Rightarrow>
            Inr (points1, points2)))"

text \<open>Split and sort polyline points. The result is the console output and either the
  exception thrown or the two arrays returned.\<close>

definition split_points ::
  "SatMap \<Rightarrow> Sat \<Rightarrow> real \<Rightarrow> XY list \<Rightarrow> log_msg list \<times> (error + XY list \<times> XY list)" where
  "split_points satmap sat sspx points1 =
     (let n = length points1;
          mid = x0 satmap + width satmap / 2
      in
      if ssplon sat \<ge> 179.4 \<or> ssplon sat \<le> - 179.4 then
        (let tps1 = filter (\<lambda>p. xc p > mid) points1;
             tps2 = filter (\<lambda>p. \<not> xc p > mid) points1
         in ([Split 1],
             stretch_end_points satmap (sort_points_y satmap sat tps1)
               (sort_points_y satmap sat tps2)))
      else if sspx < mid then
        ([Split 2],
         case scan_up (\<lambda>x. x \<le> mid) points1 0 of Inl e \<Rightarrow> Inl e | Inr i \<Rightarrow>
         let ns = int i - 1 in
         case copy_up (\<lambda>x. x > mid) points1 i [] of Inl e \<Rightarrow> Inl e | Inr (i, tps2) \<Rightarrow>
         let tps1 = map (\<lambda>i. points1 ! i) [i..<n];
             tps1 = tps1 @ map (\<lambda>i. points1 ! nat i) [0..ns]
         in stretch_end_points satmap tps1 tps2)
      else
        ([Split 3],
         case scan_down (\<lambda>x. x \<ge> mid) points1 (int n - 1) of Inl e \<Rightarrow> Inl e | Inr i \<Rightarrow>
         let ns = i + 1 in
         case copy_down (\<lambda>x. x < mid) points1 i [] of Inl e \<Rightarrow> Inl e | Inr (i, tps2) \<Rightarrow>
         let tps1 = map (\<lambda>i. points1 ! nat i) (rev [0..i]);
             tps1 = tps1 @ map (\<lambda>i. points1 ! nat i) (rev [ns..int n - 1])
         in stretch_end_points satmap tps1 tps2))"

subsection \<open>The footprint\<close>

text \<open>Calculate satellite footprint and coverage area. The value is \<open>None\<close> when a loop
  runs forever; otherwise it is the console output with the exception thrown or the pair
  of arrays returned.\<close>

definition calculate_footprint ::
  "SatMap \<Rightarrow> Sat \<Rightarrow> (log_msg list \<times> (error + XY list \<times> XY list)) option" where
  "calculate_footprint satmap sat =
     (case footprint_loop satmap sat [0..<180] ([], False, goo_canvas_points_new 360) of
        None \<Rightarrow> None
      | Some (lg, warped, points1) \<Rightarrow>
          let points2 = [];
              (lgp, covered) = pole_is_covered sat
          in if covered then
               (case sort_points_x satmap sat points1 of
                  Inl e \<Rightarrow> Some (lg @ lgp, Inl e)
                | Inr points1 \<Rightarrow> Some (lg @ lgp, Inr (points1, points2)))
             else if warped then
               (case lonlat_to_xy satmap (ssplon sat) (ssplat sat) of
                  None \<Rightarrow> None
                | Some (ssx, ssy) \<Rightarrow>
                    let (lgs, r) = split_points satmap sat ssx points1
                    in Some (lg @ lgp @ [WARPED] @ lgs, r))
             else Some (lg @ lgp, Inr (points1, points2)))"

subsection \<open>Notions used in the statements\<close>

text \<open>Whether the pass of the loop for \<open>azi\<close> sets \<^verbatim>\<open>warpedT\<close>.\<close>

definition sample_warped :: "SatMap \<Rightarrow> Sat \<Rightarrow> nat \<Rightarrow> bool" where
  "sample_warped satmap sat azi =
     (case range_circle sat azi of
        None \<Rightarrow> False
      | Some (lg, rangelon, rangelat) \<Rightarrow>
          (case mirror_lon sat rangelon (left_side_lon satmap) of
             None \<Rightarrow> False
           | Some (warpedT, mlon) \<Rightarrow> warpedT))"

text \<open>A point whose \<open>x\<close> is between 0 and the width of the map.\<close>

definition in_width :: "SatMap \<Rightarrow> XY \<Rightarrow> bool" where
  "in_width satmap p = (0 \<le> xc p \<and> xc p \<le> width satmap)"

text \<open>The map of the examples: 720 by 360 pixels, the left side at longitude -180, the
  origin at \<open>(ox, 0)\<close>.\<close>

definition example_map :: "real \<Rightarrow> SatMap" where
  "example_map ox = \<lparr>left_side_lon = - 180, width = 720, height = 360, x0 = ox, y0 = 0\<rparr>"

section \<open>Great-circle distance and bearing\<close>

lemma qrb_tmp_sym: "qrb_tmp lon2 lat2 lon1 lat1 = qrb_tmp lon1 lat1 lon2 lat2"
proof -
  have "cos (lon1 / RADIAN - lon2 / RADIAN) = cos (lon2 / RADIAN - lon1 / RADIAN)"
    using cos_minus [of "lon2 / RADIAN - lon1 / RADIAN"] by simp
  then show ?thesis
    by (simp add: qrb_tmp_def Let_def mult.commute)
qed

lemma qrb_tmp_same: "qrb_tmp lon lat lon lat = 1"
proof -
  have "sin (qrb_pole_guard lat / RADIAN) * sin (qrb_pole_guard lat / RADIAN)
        + cos (qrb_pole_guard lat / RADIAN) * cos (qrb_pole_guard lat / RADIAN) = 1"
    using sin_cos_squared_add [of "qrb_pole_guard lat / RADIAN"]
    by (simp add: power2_eq_square)
  then show ?thesis
    by (simp add: qrb_tmp_def Let_def)
qed


text \<open>
  C3. \<^verbatim>\<open>qrb\<close> returns the status \<^verbatim>\<open>RIG_EINVAL\<close> (InvalidCoordinate) together with distance
  0 and azimuth 0 if and only if a latitude argument is outside \<open>[-90, 90]\<close> or a longitude
  argument is outside \<open>[-180, 180]\<close>; otherwise, and only then, the status is \<^verbatim>\<open>RIG_OK\<close>.
\<close>

theorem qrb_invalid_coordinate_iff:
  "((res (qrb lon1 lat1 lon2 lat2) = ''RIG_EINVAL''
      \<and> distance (qrb lon1 lat1 lon2 lat2) = 0 \<and> azimuth (qrb lon1 lat1 lon2 lat2) = 0)
    = (\<not> valid_lat lat1 \<or> \<not> valid_lat lat2 \<or> \<not> valid_lon lon1 \<or> \<not> valid_lon lon2))
   \<and> ((res (qrb lon1 lat1 lon2 lat2) = ''RIG_OK'')
    = (valid_lat lat1 \<and> valid_lat lat2 \<and> valid_lon lon1 \<and> valid_lon lon2))"
  by (auto simp add: qrb_def valid_lat_def valid_lon_def Let_def)

theorem qrb_invalid_coordinate_iff_witness:
  "res (qrb 0 91 0 0) = ''RIG_EINVAL'' \<and> distance (qrb 0 91 0 0) = 0 \<and> azimuth (qrb 0 91 0 0) = 0
   \<and> res (qrb 200 0 0 0) = ''RIG_EINVAL'' \<and> res (qrb 10 20 10 20) = ''RIG_OK''"
  using qrb_invalid_coordinate_iff [of 0 91 0 0] qrb_invalid_coordinate_iff [of 200 0 0 0]
    qrb_invalid_coordinate_iff [of 10 20 10 20]
  by (simp add: valid_lat_def valid_lon_def)

text \<open>
  C8. The distance returned by \<^verbatim>\<open>qrb\<close> is symmetric: \<open>qrb(A,B)\<close> and \<open>qrb(B,A)\<close> have the
  same distance. It holds for every pair of arguments, the valid pairs among them.
\<close>

theorem qrb_distance_symmetric:
  "distance (qrb lon1 lat1 lon2 lat2) = distance (qrb lon2 lat2 lon1 lat1)"
  by (simp add: qrb_def Let_def qrb_tmp_sym [of lon1 lat1 lon2 lat2])

text \<open>
  C9. For valid coordinates whose \<open>cosArc\<close> (the local \<^verbatim>\<open>tmp\<close>) is below \<open>-0.999999\<close>,
  \<^verbatim>\<open>qrb\<close> returns \<^verbatim>\<open>RIG_OK\<close> with distance \<open>180 * 111.2 = 20016\<close> and azimuth 0. The
  witness is the pair of antipodal points \<open>(0,0)\<close> and \<open>(180,0)\<close>.
\<close>

theorem qrb_antipodal:
  assumes "valid_lat lat1" "valid_lat lat2" "valid_lon lon1" "valid_lon lon2"
    and "qrb_tmp lon1 lat1 lon2 lat2 < - 0.999999"
  shows "qrb lon1 lat1 lon2 lat2 = \<lparr>res = ''RIG_OK'', distance = 180 * 111.2, azimuth = 0\<rparr>
         \<and> 180 * 111.2 = (20016 :: real)"
  using assms by (simp add: qrb_def Let_def valid_lat_def valid_lon_def ARC_IN_KM_def)

lemma qrb_tmp_antipodal_equator: "qrb_tmp 0 0 180 0 = - 1"
  by (simp add: qrb_tmp_def Let_def qrb_pole_guard_def RADIAN_def)

theorem qrb_antipodal_witness:
  "valid_lat 0 \<and> valid_lon 0 \<and> valid_lon 180 \<and> qrb_tmp 0 0 180 0 < - 0.999999
   \<and> qrb 0 0 180 0 = \<lparr>res = ''RIG_OK'', distance = 20016, azimuth = 0\<rparr>"
proof -
  have v: "valid_lat 0" "valid_lon 0" "valid_lon 180"
    by (simp_all add: valid_lat_def valid_lon_def)
  have t: "qrb_tmp 0 0 180 0 < - 0.999999"
    by (simp add: qrb_tmp_antipodal_equator)
  from qrb_antipodal [OF v(1) v(1) v(2) v(3) t] v t show ?thesis
    by simp
qed

text \<open>
  C10. For a valid point given twice, \<^verbatim>\<open>qrb\<close> returns \<^verbatim>\<open>RIG_OK\<close> with distance 0 and
  azimuth 0: \<open>tmp\<close> is 1, above the coincidence threshold \<open>0.999999999999999\<close>.
\<close>

theorem qrb_coincident:
  assumes "valid_lat lat" "valid_lon lon"
  shows "qrb_tmp lon lat lon lat > 0.999999999999999
         \<and> qrb lon lat lon lat = \<lparr>res = ''RIG_OK'', distance = 0, azimuth = 0\<rparr>"
  using assms by (simp add: qrb_def Let_def valid_lat_def valid_lon_def qrb_tmp_same)

theorem qrb_coincident_witness:
  "valid_lat 47.5 \<and> valid_lon 19
   \<and> qrb 19 47.5 19 47.5 = \<lparr>res = ''RIG_OK'', distance = 0, azimuth = 0\<rparr>"
proof -
  have v: "valid_lat 47.5" "valid_lon 19"
    by (simp_all add: valid_lat_def valid_lon_def)
  from qrb_coincident [OF v] v show ?thesis by simp
qed

subsection \<open>The bearing\<close>

lemma js_rem_small: "\<bar>a\<bar> < 2 \<Longrightarrow> js_rem a 2 = a"
proof -
  assume a: "\<bar>a\<bar> < 2"
  have "js_trunc (a / 2) = 0"
  proof (cases "0 \<le> a / 2")
    case True
    with a have "\<lfloor>a / 2\<rfloor> = 0" by (intro floor_unique) auto
    with True show ?thesis by (simp add: js_trunc_def)
  next
    case False
    with a have "\<lceil>a / 2\<rceil> = 0" by (intro ceiling_unique) auto
    with False show ?thesis by (simp add: js_trunc_def)
  qed
  then show ?thesis by (simp add: js_rem_def)
qed

lemma deg270: "135 / RADIAN - - 135 / RADIAN = 3 / 2 * pi"
  by (simp add: RADIAN_def)

lemma qrb_tmp_135: "qrb_tmp 135 0 (- 135) 0 = 0"
proof -
  have "- 135 / RADIAN - 135 / RADIAN = - (3 / 2 * pi)"
    by (simp add: RADIAN_def)
  then have "cos (- 135 / RADIAN - 135 / RADIAN) = 0"
    by (simp only: cos_minus cos_3over2_pi)
  then show ?thesis
    by (simp add: qrb_tmp_def Let_def qrb_pole_guard_def)
qed

lemma qrb_azimuth_135:
  "qrb_azimuth (135 / RADIAN) (0 / RADIAN) (- 135 / RADIAN) (0 / RADIAN) = 360 + 90 * pi"
proof -
  have r: "- 135 / RADIAN < 135 / RADIAN"
    by (simp add: RADIAN_def)
  have s: "sin (135 / RADIAN - - 135 / RADIAN) = - 1"
    by (simp only: deg270 sin_3over2_pi)
  have c: "cos (135 / RADIAN - - 135 / RADIAN) = 0"
    by (simp only: deg270 cos_3over2_pi)
  have at: "Math_atan2 (sin (135 / RADIAN - - 135 / RADIAN) * cos (0 / RADIAN))
              (cos (0 / RADIAN) * sin (0 / RADIAN)
                - sin (0 / RADIAN) * cos (0 / RADIAN) * cos (135 / RADIAN - - 135 / RADIAN))
            = - (pi / 2)"
    unfolding s c by (simp add: Math_atan2_def)
  have "pi / 2 < 2" using pi_less_4 by simp
  then have "js_rem (- (pi / 2)) 2 = - (pi / 2)"
    by (intro js_rem_small) simp
  then show ?thesis
    unfolding qrb_azimuth_def at Let_def using r by (simp add: RADIAN_def)
qed

lemma js_rem_2_bound: "\<bar>js_rem a 2\<bar> < 2"
proof (cases "0 \<le> a / 2")
  case True
  have "of_int \<lfloor>a / 2\<rfloor> \<le> a / 2" "a / 2 < of_int \<lfloor>a / 2\<rfloor> + 1" by linarith+
  then show ?thesis using True by (simp add: js_rem_def js_trunc_def) linarith
next
  case False
  have "a / 2 \<le> of_int \<lceil>a / 2\<rceil>" "of_int \<lceil>a / 2\<rceil> - 1 < a / 2" by linarith+
  then show ?thesis using False by (simp add: js_rem_def js_trunc_def) linarith
qed

text \<open>What the code guarantees for the bearing: it is never negative and stays below 720;
  it stays below 360 when \<open>lon1 \<le> lon2\<close>.\<close>

lemma qrb_azimuth_range:
  "0 \<le> azimuth (qrb lon1 lat1 lon2 lat2) \<and> azimuth (qrb lon1 lat1 lon2 lat2) < 720
   \<and> (lon1 \<le> lon2 \<longrightarrow> azimuth (qrb lon1 lat1 lon2 lat2) < 360)"
proof -
  have r: "0 \<le> qrb_azimuth l1 t1 l2 t2 \<and> qrb_azimuth l1 t1 l2 t2 < 720
           \<and> (l1 \<le> l2 \<longrightarrow> qrb_azimuth l1 t1 l2 t2 < 360)" for l1 t1 l2 t2
  proof -
    define m where "m = js_rem (Math_atan2 (sin (l1 - l2) * cos t2)
                 (cos t1 * sin t2 - sin t1 * cos t2 * cos (l1 - l2))) 2"
    have m: "\<bar>m\<bar> < 2" unfolding m_def by (rule js_rem_2_bound)
    have az: "RADIAN * (m * pi) = 180 * m" by (simp add: RADIAN_def)
    show ?thesis
      unfolding qrb_azimuth_def Let_def m_def [symmetric] az using m by auto
  qed
  have le: "lon1 / RADIAN \<le> lon2 / RADIAN" if "lon1 \<le> lon2"
    using that by (simp add: RADIAN_def divide_right_mono)
  show ?thesis
    using r [of "lon1 / RADIAN" "qrb_pole_guard lat1 / RADIAN" "lon2 / RADIAN"
        "qrb_pole_guard lat2 / RADIAN"] le
    by (auto simp add: qrb_def Let_def)
qed

text \<open>
  C2 says that for valid coordinates, neither coincident nor antipodal, the azimuth lies
  in \<open>[0, 360)\<close>. The code returns more than 360 for the points \<open>(135, 0)\<close> and
  \<open>(-135, 0)\<close> on the equator: \<open>tmp\<close> is 0, \<^verbatim>\<open>Math.atan2\<close> gives \<open>-pi/2\<close>, the line
  \<^verbatim>\<open>az = az % 2 * Math.PI\<close> turns it into \<open>-pi\<^sup>2/2\<close> radians, that is \<open>-90 pi\<close> degrees,
  and the branch \<^verbatim>\<open>lon1 > lon2\<close> returns \<open>360 + 90 pi\<close>, about 642.7. What the code
  does keep is \<open>0 \<le> azimuth < 720\<close> (\<open>qrb_azimuth_range\<close>).
\<close>

theorem qrb_azimuth_above_360:
  "valid_lat 0 \<and> valid_lon 135 \<and> valid_lon (- 135)
   \<and> qrb_tmp 135 0 (- 135) 0 = 0
   \<and> qrb 135 0 (- 135) 0 = \<lparr>res = ''RIG_OK'', distance = 10008, azimuth = 360 + 90 * pi\<rparr>
   \<and> 360 < azimuth (qrb 135 0 (- 135) 0)"
proof -
  have "qrb 135 0 (- 135) 0 = \<lparr>res = ''RIG_OK'', distance = 10008, azimuth = 360 + 90 * pi\<rparr>"
    using qrb_azimuth_135
    by (simp add: qrb_def qrb_tmp_135 Let_def qrb_pole_guard_def ARC_IN_KM_def RADIAN_def)
  then show ?thesis
    by (simp add: qrb_tmp_135 valid_lat_def valid_lon_def)
qed

section \<open>Termination of the loops\<close>

lemma while_lt_stop: "\<not> v < bnd \<Longrightarrow> while_lt bnd step v = Some v"
  by (subst while_lt.simps) simp

lemma while_lt_go: "v < bnd \<Longrightarrow> while_lt bnd step v = while_lt bnd step (v + step)"
  by (subst while_lt.simps) simp

lemma while_gt_stop: "\<not> v > bnd \<Longrightarrow> while_gt bnd step v = Some v"
  by (subst while_gt.simps) simp

lemma while_gt_go: "v > bnd \<Longrightarrow> while_gt bnd step v = while_gt bnd step (v - step)"
  by (subst while_gt.simps) simp

lemma while_lt_bounded:
  assumes "0 < step" and "bnd - v \<le> real n * step"
  shows "\<exists>r. while_lt bnd step v = Some r \<and> bnd \<le> r \<and> (r = v \<or> (v < bnd \<and> r < bnd + step))"
  using assms(2)
proof (induction n arbitrary: v)
  case 0
  then show ?case by (simp add: while_lt_stop)
next
  case (Suc n)
  show ?case
  proof (cases "v < bnd")
    case False
    then show ?thesis by (simp add: while_lt_stop)
  next
    case True
    from Suc.prems have "bnd - (v + step) \<le> real n * step"
      by (simp add: algebra_simps)
    from Suc.IH [OF this] obtain r where
      r: "while_lt bnd step (v + step) = Some r" "bnd \<le> r"
         "r = v + step \<or> (v + step < bnd \<and> r < bnd + step)"
      by blast
    from r(3) True have "r < bnd + step" by auto
    with r True show ?thesis by (simp add: while_lt_go)
  qed
qed

lemma while_lt_terminates:
  assumes "0 < step"
  shows "\<exists>r. while_lt bnd step v = Some r \<and> bnd \<le> r \<and> (r = v \<or> (v < bnd \<and> r < bnd + step))"
proof -
  obtain n :: nat where "(bnd - v) / step \<le> real n"
    using real_arch_simple by blast
  with assms have "bnd - v \<le> real n * step"
    by (simp add: pos_divide_le_eq)
  from while_lt_bounded [OF assms this] show ?thesis .
qed

lemma while_gt_bounded:
  assumes "0 < step" and "v - bnd \<le> real n * step"
  shows "\<exists>r. while_gt bnd step v = Some r \<and> r \<le> bnd \<and> (r = v \<or> (bnd < v \<and> bnd - step < r))"
  using assms(2)
proof (induction n arbitrary: v)
  case 0
  then show ?case by (simp add: while_gt_stop)
next
  case (Suc n)
  show ?case
  proof (cases "v > bnd")
    case False
    then show ?thesis by (simp add: while_gt_stop)
  next
    case True
    from Suc.prems have "(v - step) - bnd \<le> real n * step"
      by (simp add: algebra_simps)
    from Suc.IH [OF this] obtain r where
      r: "while_gt bnd step (v - step) = Some r" "r \<le> bnd"
         "r = v - step \<or> (bnd < v - step \<and> bnd - step < r)"
      by blast
    from r(3) True have "bnd - step < r" by auto
    with r True show ?thesis by (simp add: while_gt_go)
  qed
qed

lemma while_gt_terminates:
  assumes "0 < step"
  shows "\<exists>r. while_gt bnd step v = Some r \<and> r \<le> bnd \<and> (r = v \<or> (bnd < v \<and> bnd - step < r))"
proof -
  obtain n :: nat where "(v - bnd) / step \<le> real n"
    using real_arch_simple by blast
  with assms have "v - bnd \<le> real n * step"
    by (simp add: pos_divide_le_eq)
  from while_gt_bounded [OF assms this] show ?thesis .
qed

lemma lonlat_to_xy_returns:
  assumes "0 < width p"
  shows "\<exists>x y. lonlat_to_xy p lon lat = Some (x, y) \<and> 0 \<le> x \<and> x \<le> width p"
proof -
  let ?x = "x0 p + (lon - left_side_lon p) * width p / 360"
  from while_lt_terminates [OF assms, of 0 ?x] obtain x1 where
    x1: "while_lt 0 (width p) ?x = Some x1" "0 \<le> x1" by auto
  from while_gt_terminates [OF assms, of "width p" x1] obtain x2 where
    x2: "while_gt (width p) (width p) x1 = Some x2" "x2 \<le> width p"
        "x2 = x1 \<or> (width p < x1 \<and> width p - width p < x2)" by auto
  from x1(2) x2(3) have "0 \<le> x2" by auto
  with x1 x2 show ?thesis
    by (simp add: lonlat_to_xy_def Let_def)
qed

lemma mirror_lon_returns: "\<exists>w m. mirror_lon sat rangelon mapbreak = Some (w, m)"
proof -
  have p: "(0::real) < 360" by simp
  from while_lt_terminates [OF p, of 0 "ssplon sat - rangelon"] obtain d1 where
    d1: "while_lt 0 360 (ssplon sat - rangelon) = Some d1" by auto
  from while_gt_terminates [OF p, of 360 d1] obtain d2 where
    d2: "while_gt 360 360 d1 = Some d2" by auto
  from while_gt_terminates [OF p, of 180 "ssplon sat + \<bar>d2\<bar>"] obtain m1 where
    m1: "while_gt 180 360 (ssplon sat + \<bar>d2\<bar>) = Some m1" by auto
  from while_lt_terminates [OF p, of "- 180" m1] obtain m2 where
    m2: "while_lt (- 180) 360 m1 = Some m2" by auto
  from d1 d2 m1 m2 show ?thesis
    by (simp add: mirror_lon_def Let_def)
qed

lemma range_circle_returns:
  "\<exists>lg rlon rlat. range_circle sat azi = Some (lg, rlon, rlat) \<and> - 180 \<le> rlon \<and> rlon \<le> 180
     \<and> lg = fst (range_circle_rad sat azi)"
proof -
  have p: "0 < pi * 2" by simp
  obtain lg r0 rl where n: "range_circle_rad sat azi = (lg, r0, rl)"
    by (cases "range_circle_rad sat azi") auto
  from while_lt_terminates [OF p, of "- pi" r0] obtain r1 where
    r1: "while_lt (- pi) (pi * 2) r0 = Some r1" "- pi \<le> r1" by auto
  from while_gt_terminates [OF p, of pi r1] obtain r2 where
    r2: "while_gt pi (pi * 2) r1 = Some r2" "r2 \<le> pi"
        "r2 = r1 \<or> (pi < r1 \<and> pi - pi * 2 < r2)" by auto
  from r1(2) r2(3) have lo: "- pi \<le> r2" by auto
  have "- 180 \<le> r2 / de2ra"
  proof -
    have "- 180 = (- pi) / de2ra" by (simp add: de2ra_def)
    also have "\<dots> \<le> r2 / de2ra"
      using lo by (intro divide_right_mono) (simp_all add: de2ra_def)
    finally show ?thesis .
  qed
  moreover have "r2 / de2ra \<le> 180"
  proof -
    have "r2 / de2ra \<le> pi / de2ra"
      using r2(2) by (intro divide_right_mono) (simp_all add: de2ra_def)
    also have "\<dots> = 180" by (simp add: de2ra_def)
    finally show ?thesis .
  qed
  ultimately show ?thesis
    using r1 r2 by (simp add: range_circle_def n)
qed

section \<open>The loop of the footprint\<close>

lemma range_circle_rad_log:
  "fst (range_circle_rad sat azi) = (if azi = 0 then fst (north_pole_is_covered sat) else [])"
  by (simp add: range_circle_rad_def Let_def split: prod.splits)

lemma footprint_step_returns:
  assumes "0 < width M"
  shows "\<exists>pts'. footprint_step M S azi (lg, w, pts)
           = Some (lg @ fst (range_circle_rad S azi), w \<or> sample_warped M S azi, pts')
         \<and> length pts' = length pts
         \<and> (list_all (in_width M) pts \<longrightarrow> list_all (in_width M) pts')"
proof -
  from range_circle_returns [of S azi] obtain lg' rlon rlat where
    rc: "range_circle S azi = Some (lg', rlon, rlat)" "lg' = fst (range_circle_rad S azi)"
    by blast
  from mirror_lon_returns [of S rlon "left_side_lon M"] obtain wT m where
    ml: "mirror_lon S rlon (left_side_lon M) = Some (wT, m)" by blast
  from lonlat_to_xy_returns [OF assms, of rlon rlat] obtain sx sy where
    s: "lonlat_to_xy M rlon rlat = Some (sx, sy)" "0 \<le> sx" "sx \<le> width M" by blast
  from lonlat_to_xy_returns [OF assms, of m rlat] obtain msx msy where
    ms: "lonlat_to_xy M m rlat = Some (msx, msy)" "0 \<le> msx" "msx \<le> width M" by blast
  let ?pts = "pts[azi := \<lparr>xc = sx, yc = sy\<rparr>, 359 - azi := \<lparr>xc = msx, yc = msy\<rparr>]"
  have sw: "sample_warped M S azi = wT"
    by (simp add: sample_warped_def rc ml)
  have st: "footprint_step M S azi (lg, w, pts) = Some (lg @ lg', w \<or> wT, ?pts)"
    by (simp add: footprint_step_def rc ml s ms)
  have inv: "list_all (in_width M) ?pts" if a: "list_all (in_width M) pts"
  proof -
    have "set ?pts \<subseteq> insert \<lparr>xc = msx, yc = msy\<rparr> (insert \<lparr>xc = sx, yc = sy\<rparr> (set pts))"
      by (meson insert_mono order_trans set_update_subset_insert)
    moreover have "in_width M \<lparr>xc = msx, yc = msy\<rparr>" "in_width M \<lparr>xc = sx, yc = sy\<rparr>"
      using s ms by (simp_all add: in_width_def)
    ultimately show ?thesis
      using a unfolding list_all_iff by blast
  qed
  show ?thesis
    using st sw rc(2) inv by simp
qed

lemma footprint_loop_returns:
  assumes "0 < width M"
  shows "\<exists>pts'. footprint_loop M S azis (lg, w, pts)
           = Some (lg @ concat (map (\<lambda>a. fst (range_circle_rad S a)) azis),
                   w \<or> (\<exists>a\<in>set azis. sample_warped M S a), pts')
         \<and> length pts' = length pts
         \<and> (list_all (in_width M) pts \<longrightarrow> list_all (in_width M) pts')"
proof (induction azis arbitrary: lg w pts)
  case Nil
  then show ?case by simp
next
  case (Cons a azis)
  from footprint_step_returns [OF assms, of S a lg w pts] obtain pts1 where
    st: "footprint_step M S a (lg, w, pts)
           = Some (lg @ fst (range_circle_rad S a), w \<or> sample_warped M S a, pts1)"
        "length pts1 = length pts"
        "list_all (in_width M) pts \<longrightarrow> list_all (in_width M) pts1"
    by blast
  from Cons.IH [of "lg @ fst (range_circle_rad S a)" "w \<or> sample_warped M S a" pts1]
  obtain pts2 where
    lp: "footprint_loop M S azis (lg @ fst (range_circle_rad S a), w \<or> sample_warped M S a, pts1)
           = Some ((lg @ fst (range_circle_rad S a))
                     @ concat (map (\<lambda>a. fst (range_circle_rad S a)) azis),
                   (w \<or> sample_warped M S a) \<or> (\<exists>a\<in>set azis. sample_warped M S a), pts2)"
        "length pts2 = length pts1"
        "list_all (in_width M) pts1 \<longrightarrow> list_all (in_width M) pts2"
    by blast
  show ?case
    using st lp by auto
qed

lemma range_log_upt:
  "concat (map (\<lambda>a. fst (range_circle_rad S a)) [0..<180]) = fst (north_pole_is_covered S)"
proof -
  have "concat (map (\<lambda>a. fst (range_circle_rad S a)) [1..<180]) = []"
    by (simp add: range_circle_rad_log)
  moreover have "[0..<180] = 0 # [1..<180]"
    by (simp add: upt_conv_Cons)
  ultimately show ?thesis
    by (simp add: range_circle_rad_log)
qed

text \<open>The loop of calculate_footprint returns, with 360 points between 0 and the width.\<close>

lemma footprint_points:
  assumes "0 < width M"
  shows "\<exists>pts. footprint_loop M S [0..<180] ([], False, goo_canvas_points_new 360)
           = Some (fst (north_pole_is_covered S), (\<exists>a<180. sample_warped M S a), pts)
         \<and> length pts = 360 \<and> list_all (in_width M) pts"
proof -
  have i: "list_all (in_width M) (goo_canvas_points_new 360)"
    using assms by (simp add: goo_canvas_points_new_def in_width_def list_all_iff)
  have l: "length (goo_canvas_points_new 360) = 360"
    by (simp add: goo_canvas_points_new_def)
  have e: "(\<exists>a\<in>set [0..<180]. sample_warped M S a) = (\<exists>a<180. sample_warped M S a)"
    by auto
  from footprint_loop_returns [OF assms, of S "[0..<180]" "[]" False "goo_canvas_points_new 360"]
  show ?thesis
    unfolding range_log_upt e using i l by auto
qed

section \<open>The pole-covered polyline\<close>

lemma sort_points_x_360:
  assumes "length pts = 360"
  shows "\<exists>ps. sort_points_x M S pts = Inr ps \<and> length ps = 360
     \<and> ps ! 0 = \<lparr>xc = x0 M, yc = (if ssplat S > 0 then y0 M else y0 M + height M)\<rparr>
     \<and> ps ! 1 = \<lparr>xc = x0 M, yc = yc (sort_key xc pts ! 0)\<rparr>
     \<and> ps ! 358 = \<lparr>xc = x0 M + width M, yc = yc (sort_key xc pts ! 359)\<rparr>
     \<and> ps ! 359 = \<lparr>xc = x0 M + width M, yc = (if ssplat S > 0 then y0 M else y0 M + height M)\<rparr>
     \<and> (\<forall>i. 2 \<le> i \<and> i < 358 \<longrightarrow> ps ! i = sort_key xc pts ! i)"
proof -
  let ?s = "sort_key xc pts"
  have l: "length ?s = 360" using assms by simp
  have ne: "?s \<noteq> []"
  proof
    assume "?s = []"
    then have "length ?s = 0" by (simp only: list.size)
    with l show False by simp
  qed
  show ?thesis
    unfolding sort_points_x_def Let_def using l ne
    by (auto simp add: nth_list_update)
qed

section \<open>Pole coverage of particular satellites\<close>

lemma cos_guard_bounds:
  "0 \<le> cos (89.999999999 / RADIAN) \<and> cos (89.999999999 / RADIAN) \<le> 1 / 2"
proof -
  define e :: real where "e = pi / 180000000000"
  have g: "89.999999999 / RADIAN = pi / 2 - e"
    by (simp add: RADIAN_def e_def)
  have e0: "0 \<le> e" by (simp add: e_def)
  have e1: "e \<le> 1 / 2" using pi_less_4 by (simp add: e_def)
  have e2: "e \<le> pi" by (simp add: e_def)
  have "cos (pi / 2 - e) = sin e"
    using sin_cos_eq [of e] by simp
  moreover have "sin e \<le> e" using e0 by (rule sin_x_le_x)
  moreover have "0 \<le> sin e" using e0 e2 by (rule sin_ge_zero)
  ultimately show ?thesis using e1 unfolding g by simp
qed

lemma qrb_tmp_equator_pole:
  "\<bar>qrb_tmp lon 0 0 90\<bar> \<le> 1 / 2" "\<bar>qrb_tmp lon 0 0 (- 90)\<bar> \<le> 1 / 2"
proof -
  let ?c = "cos (89.999999999 / RADIAN)"
  have n: "qrb_tmp lon 0 0 90 = ?c * cos (- (lon / RADIAN))"
    by (simp add: qrb_tmp_def Let_def qrb_pole_guard_def del: cos_minus)
  have "cos (- 89.999999999 / RADIAN) = ?c"
    using cos_minus [of "89.999999999 / RADIAN"] by simp
  then have s: "qrb_tmp lon 0 0 (- 90) = ?c * cos (- (lon / RADIAN))"
    by (simp add: qrb_tmp_def Let_def qrb_pole_guard_def del: cos_minus)
  have "\<bar>?c * cos (- (lon / RADIAN))\<bar> = \<bar>?c\<bar> * \<bar>cos (- (lon / RADIAN))\<bar>"
    by (rule abs_mult)
  also have "\<dots> \<le> \<bar>?c\<bar> * 1"
    by (intro mult_left_mono) simp_all
  also have "\<dots> \<le> 1 / 2"
    using cos_guard_bounds by simp
  finally have b: "\<bar>?c * cos (- (lon / RADIAN))\<bar> \<le> 1 / 2" .
  show "\<bar>qrb_tmp lon 0 0 90\<bar> \<le> 1 / 2" unfolding n by (rule b)
  show "\<bar>qrb_tmp lon 0 0 (- 90)\<bar> \<le> 1 / 2" unfolding s by (rule b)
qed

lemma qrb_far:
  assumes "valid_lat lat1" "valid_lat lat2" "valid_lon lon1" "valid_lon lon2"
    and "\<bar>qrb_tmp lon1 lat1 lon2 lat2\<bar> \<le> 1 / 2"
  shows "res (qrb lon1 lat1 lon2 lat2) = ''RIG_OK''" "6672 \<le> distance (qrb lon1 lat1 lon2 lat2)"
proof -
  let ?t = "qrb_tmp lon1 lat1 lon2 lat2"
  have "arccos (1 / 2) \<le> arccos ?t"
    using assms(5) by (intro arccos_le_arccos) auto
  then have "pi / 3 \<le> arccos ?t" by simp
  then have "ARC_IN_KM * RADIAN * (pi / 3) \<le> ARC_IN_KM * RADIAN * arccos ?t"
    by (intro mult_left_mono) (simp_all add: ARC_IN_KM_def RADIAN_def)
  moreover have "ARC_IN_KM * RADIAN * (pi / 3) = 6672"
    by (simp add: ARC_IN_KM_def RADIAN_def)
  ultimately have d: "6672 \<le> ARC_IN_KM * RADIAN * arccos ?t" by simp
  have b: "\<not> ?t > 0.999999999999999" "\<not> ?t < - 0.999999"
    using assms(5) by auto
  have q: "qrb lon1 lat1 lon2 lat2 = \<lparr>res = ''RIG_OK'', distance = ARC_IN_KM * RADIAN * arccos ?t,
             azimuth = qrb_azimuth (lon1 / RADIAN) (qrb_pole_guard lat1 / RADIAN)
                       (lon2 / RADIAN) (qrb_pole_guard lat2 / RADIAN)\<rparr>"
    using assms(1-4) b by (simp add: qrb_def Let_def valid_lat_def valid_lon_def)
  show "res (qrb lon1 lat1 lon2 lat2) = ''RIG_OK''" by (simp add: q)
  show "6672 \<le> distance (qrb lon1 lat1 lon2 lat2)" using d by (simp add: q)
qed

text \<open>A satellite over the equator with a footprint below 13344 km covers no pole.\<close>

lemma equator_no_pole:
  assumes "ssplat S = 0" "valid_lon (ssplon S)" "footprint S < 13344"
  shows "north_pole_is_covered S = ([], False)" "pole_is_covered S = ([], False)"
proof -
  have v: "valid_lat 0" "valid_lat 90" "valid_lat (- 90)" "valid_lon 0"
    by (simp_all add: valid_lat_def valid_lon_def)
  note n = qrb_far [OF v(1) v(2) assms(2) v(4) qrb_tmp_equator_pole(1)]
  note s = qrb_far [OF v(1) v(3) assms(2) v(4) qrb_tmp_equator_pole(2)]
  show no: "north_pole_is_covered S = ([], False)"
    using n assms by (simp add: north_pole_is_covered_def Let_def)
  have so: "south_pole_is_covered S = ([], False)"
    using s assms by (simp add: south_pole_is_covered_def Let_def)
  show "pole_is_covered S = ([], False)"
    by (simp add: pole_is_covered_def no so)
qed

text \<open>The satellite at latitude 85 with a footprint of 4000 km covers the North pole.\<close>

lemma lat85_north_pole:
  "north_pole_is_covered \<lparr>ssplat = 85, ssplon = 0, footprint = 4000\<rparr> = ([], True)"
proof -
  define a :: real where "a = 85 / RADIAN"
  define g :: real where "g = 89.999999999 / RADIAN"
  have "qrb_tmp 0 85 0 90 = sin a * sin g + cos a * cos g"
    by (simp add: qrb_tmp_def Let_def qrb_pole_guard_def a_def g_def)
  also have "\<dots> = cos (g - a)"
    by (simp add: cos_diff mult.commute)
  finally have t: "qrb_tmp 0 85 0 90 = cos (g - a)" .
  have d: "g - a = 4.999999999 * pi / 180"
    by (simp add: RADIAN_def a_def g_def)
  have r: "0 \<le> g - a" "g - a \<le> pi / 2" "g - a \<le> pi"
    unfolding d by simp_all
  have nn: "0 \<le> cos (g - a)"
    using r by (intro cos_ge_zero) simp_all
  have ac: "arccos (cos (g - a)) = g - a"
    using r by (intro arccos_cos) simp_all
  have "ARC_IN_KM * RADIAN * (g - a) \<le> 2000"
    unfolding d by (simp add: ARC_IN_KM_def RADIAN_def)
  then have "distance (qrb 0 85 0 90) \<le> 2000"
    using nn by (simp add: qrb_def Let_def t ac)
  moreover have "res (qrb 0 85 0 90) = ''RIG_OK''"
    by (simp add: qrb_def Let_def)
  ultimately show ?thesis
    by (simp add: north_pole_is_covered_def Let_def)
qed

section \<open>The branches of the footprint\<close>

lemma sort_key_nth_in_width:
  assumes "list_all (in_width M) pts" "i < length pts"
  shows "in_width M (sort_key xc pts ! i)"
proof -
  have "sort_key xc pts ! i \<in> set (sort_key xc pts)"
    using assms(2) by (intro nth_mem) simp
  then have "sort_key xc pts ! i \<in> set pts" by simp
  with assms(1) show ?thesis by (simp add: list_all_iff)
qed

text \<open>The pole-covered branch.\<close>

lemma pole_covered_branch:
  assumes "0 < width M" and "snd (pole_is_covered S)"
  shows "\<exists>p1 pts. calculate_footprint M S
            = Some (fst (north_pole_is_covered S) @ fst (pole_is_covered S), Inr (p1, []))
     \<and> length pts = 360 \<and> list_all (in_width M) pts
     \<and> sort_points_x M S pts = Inr p1 \<and> length p1 = 360
     \<and> p1 ! 0 = \<lparr>xc = x0 M, yc = (if ssplat S > 0 then y0 M else y0 M + height M)\<rparr>
     \<and> xc (p1 ! 1) = x0 M
     \<and> xc (p1 ! 358) = x0 M + width M
     \<and> p1 ! 359 = \<lparr>xc = x0 M + width M, yc = (if ssplat S > 0 then y0 M else y0 M + height M)\<rparr>
     \<and> (\<forall>i. 2 \<le> i \<and> i < 358 \<longrightarrow> p1 ! i = sort_key xc pts ! i)"
proof -
  from footprint_points [OF assms(1), of S] obtain pts where
    lp: "footprint_loop M S [0..<180] ([], False, goo_canvas_points_new 360)
           = Some (fst (north_pole_is_covered S), (\<exists>a<180. sample_warped M S a), pts)"
        "length pts = 360" "list_all (in_width M) pts"
    by blast
  from sort_points_x_360 [OF lp(2), of M S] obtain ps where
    ps: "sort_points_x M S pts = Inr ps" "length ps = 360"
        "ps ! 0 = \<lparr>xc = x0 M, yc = (if ssplat S > 0 then y0 M else y0 M + height M)\<rparr>"
        "ps ! 1 = \<lparr>xc = x0 M, yc = yc (sort_key xc pts ! 0)\<rparr>"
        "ps ! 358 = \<lparr>xc = x0 M + width M, yc = yc (sort_key xc pts ! 359)\<rparr>"
        "ps ! 359 = \<lparr>xc = x0 M + width M, yc = (if ssplat S > 0 then y0 M else y0 M + height M)\<rparr>"
        "\<forall>i. 2 \<le> i \<and> i < 358 \<longrightarrow> ps ! i = sort_key xc pts ! i"
    by blast
  obtain lgp where c: "pole_is_covered S = (lgp, True)"
    using assms(2) by (cases "pole_is_covered S") auto
  have "calculate_footprint M S
          = Some (fst (north_pole_is_covered S) @ fst (pole_is_covered S), Inr (ps, []))"
    by (simp add: calculate_footprint_def lp(1) c ps(1))
  with lp(2,3) ps show ?thesis by auto
qed

text \<open>The nominal branch.\<close>

lemma nominal_branch:
  assumes "0 < width M" and "\<not> snd (pole_is_covered S)" and "\<not> (\<exists>a<180. sample_warped M S a)"
  shows "\<exists>p1. calculate_footprint M S
            = Some (fst (north_pole_is_covered S) @ fst (pole_is_covered S), Inr (p1, []))
     \<and> length p1 = 360 \<and> list_all (in_width M) p1"
proof -
  from footprint_points [OF assms(1), of S] obtain pts where
    lp: "footprint_loop M S [0..<180] ([], False, goo_canvas_points_new 360)
           = Some (fst (north_pole_is_covered S), (\<exists>a<180. sample_warped M S a), pts)"
        "length pts = 360" "list_all (in_width M) pts"
    by blast
  obtain lgp where c: "pole_is_covered S = (lgp, False)"
    using assms(2) by (cases "pole_is_covered S") auto
  have nw: "(\<exists>a<180. sample_warped M S a) = False"
    using assms(3) by simp
  have "calculate_footprint M S
          = Some (fst (north_pole_is_covered S) @ fst (pole_is_covered S), Inr (pts, []))"
    by (simp add: calculate_footprint_def lp(1) [unfolded nw] c)
  with lp(2,3) show ?thesis by auto
qed

section \<open>Warping\<close>

lemma mirror_lon_value:
  "\<exists>m. mirror_lon sat rangelon mapbreak
       = Some ((if (ssplon sat \<ge> mapbreak \<and> ssplon sat < mapbreak + 180)
                   \<or> (ssplon sat < mapbreak - 180 \<and> ssplon sat \<ge> mapbreak - 360)
                then \<not> ((rangelon \<ge> mapbreak \<and> rangelon < mapbreak + 180)
                        \<or> (rangelon < mapbreak - 180 \<and> rangelon \<ge> mapbreak - 360))
                else ((m \<ge> mapbreak \<and> m < mapbreak + 180)
                        \<or> (m < mapbreak - 180 \<and> m \<ge> mapbreak - 360))), m)
     \<and> (0 \<le> ssplon sat - rangelon \<and> ssplon sat - rangelon \<le> 360
          \<and> - 180 \<le> ssplon sat + (ssplon sat - rangelon)
          \<and> ssplon sat + (ssplon sat - rangelon) \<le> 180
        \<longrightarrow> m = ssplon sat + (ssplon sat - rangelon))"
proof -
  have p: "(0::real) < 360" by simp
  let ?d = "ssplon sat - rangelon"
  from while_lt_terminates [OF p, of 0 ?d] obtain d1 where
    d1: "while_lt 0 360 ?d = Some d1" "d1 = ?d \<or> ?d < 0" by auto
  from while_gt_terminates [OF p, of 360 d1] obtain d2 where
    d2: "while_gt 360 360 d1 = Some d2" "d2 = d1 \<or> 360 < d1" by auto
  from while_gt_terminates [OF p, of 180 "ssplon sat + \<bar>d2\<bar>"] obtain m1 where
    m1: "while_gt 180 360 (ssplon sat + \<bar>d2\<bar>) = Some m1"
        "m1 = ssplon sat + \<bar>d2\<bar> \<or> 180 < ssplon sat + \<bar>d2\<bar>" by auto
  from while_lt_terminates [OF p, of "- 180" m1] obtain m2 where
    m2: "while_lt (- 180) 360 m1 = Some m2" "m2 = m1 \<or> m1 < - 180" by auto
  have v: "m2 = ssplon sat + ?d"
    if "0 \<le> ?d" "?d \<le> 360" "- 180 \<le> ssplon sat + ?d" "ssplon sat + ?d \<le> 180"
  proof -
    from d1(2) that have "d1 = ?d" by auto
    with d2(2) that have "d2 = ?d" by auto
    with m1(2) that have "m1 = ssplon sat + ?d" by auto
    with m2(2) that show ?thesis by auto
  qed
  have "mirror_lon sat rangelon mapbreak
       = Some ((if (ssplon sat \<ge> mapbreak \<and> ssplon sat < mapbreak + 180)
                   \<or> (ssplon sat < mapbreak - 180 \<and> ssplon sat \<ge> mapbreak - 360)
                then \<not> ((rangelon \<ge> mapbreak \<and> rangelon < mapbreak + 180)
                        \<or> (rangelon < mapbreak - 180 \<and> rangelon \<ge> mapbreak - 360))
                else ((m2 \<ge> mapbreak \<and> m2 < mapbreak + 180)
                        \<or> (m2 < mapbreak - 180 \<and> m2 \<ge> mapbreak - 360))), m2)"
    by (simp add: mirror_lon_def Let_def d1(1) d2(1) m1(1) m2(1))
  with v show ?thesis by blast
qed

lemma arccos_xy_bounds:
  assumes "0 \<le> dem" "\<not> abs_quotient_gt_1 num dem"
  shows "0 \<le> arccos_xy num dem \<and> arccos_xy num dem \<le> pi"
proof (cases "num \<noteq> 0 \<and> dem \<noteq> 0")
  case True
  with assms have q: "\<bar>num / dem\<bar> \<le> 1" "dem > 0"
    by (auto simp add: abs_quotient_gt_1_def)
  have "num / dem \<le> 1" by (rule abs_le_D1 [OF q(1)])
  moreover have "- (num / dem) \<le> 1" by (rule abs_le_D2 [OF q(1)])
  then have "- 1 \<le> num / dem" by linarith
  ultimately
  have "0 \<le> arccos (num / dem)" "arccos (num / dem) \<le> pi"
    by (auto intro: arccos_lbound arccos_ubound)
  with True q show ?thesis by (simp add: arccos_xy_def)
next
  case False
  then show ?thesis by (auto simp add: arccos_xy_def)
qed

lemma deg_bounds:
  assumes "- pi \<le> r" "r \<le> 0"
  shows "- 180 \<le> r / de2ra" "r / de2ra \<le> 0"
proof -
  have "r / de2ra = r * 180 / pi" by (simp add: de2ra_def)
  moreover have "- 180 \<le> r * 180 / pi"
    using assms(1) by (simp add: pos_le_divide_eq)
  moreover have "r * 180 / pi \<le> 0"
    using assms(2) by (simp add: divide_le_0_iff mult_le_0_iff)
  ultimately show "- 180 \<le> r / de2ra" "r / de2ra \<le> 0" by simp_all
qed

text \<open>With the satellite over longitude 0 and latitude 0 and the left side of the map at
  -180, no pass of the loop sets warpedT.\<close>

lemma no_warp_centre:
  assumes "ssplat S = 0" "ssplon S = 0" "left_side_lon M = - 180"
    and "north_pole_is_covered S = ([], False)" and "a < 180"
  shows "\<not> sample_warped M S a"
proof -
  define beta where "beta = 0.5 * footprint S / xkmper"
  define z where "z = cos (de2ra * real a) * sin beta"
  define dem where "dem = cos (arcsin z)"
  define num where "num = cos beta"
  define r0 where "r0 = (if abs_quotient_gt_1 num dem then 0 else - arccos_xy num dem)"
  have "\<bar>z\<bar> = \<bar>cos (de2ra * real a)\<bar> * \<bar>sin beta\<bar>"
    unfolding z_def by (rule abs_mult)
  also have "\<dots> \<le> 1 * 1"
    by (intro mult_mono) simp_all
  finally have zb: "- 1 \<le> z" "z \<le> 1" by (auto simp add: abs_le_iff)
  have dem0: "0 \<le> dem"
    unfolding dem_def using zb by (intro cos_ge_zero arcsin_lbound arcsin_ubound)
  have rc: "range_circle_rad S a = ([], r0, arcsin z)"
    using assms(1,2,4,5)
    by (simp add: range_circle_rad_def Let_def beta_def z_def dem_def num_def r0_def)
  have r0b: "- pi \<le> r0" "r0 \<le> 0"
    using arccos_xy_bounds [OF dem0, of num] by (auto simp add: r0_def)
  have w1: "while_lt (- pi) (pi * 2) r0 = Some r0"
    using r0b by (intro while_lt_stop) simp
  have w2: "while_gt pi (pi * 2) r0 = Some r0"
    using r0b by (intro while_gt_stop) simp
  have r: "range_circle S a = Some ([], r0 / de2ra, arcsin z / de2ra)"
    by (simp add: range_circle_def rc w1 w2)
  note d = deg_bounds [OF r0b]
  from mirror_lon_value [of S "r0 / de2ra" "- 180"] obtain m where
    m: "mirror_lon S (r0 / de2ra) (- 180) = Some (- 180 \<le> m \<and> m < 0 \<or> m < - 360 \<and> - 540 \<le> m, m)"
       "m = - (r0 / de2ra)"
    using d assms(2) by auto
  from m(2) d have "\<not> (- 180 \<le> m \<and> m < 0 \<or> m < - 360 \<and> - 540 \<le> m)" by auto
  with m(1) have "mirror_lon S (r0 / de2ra) (- 180) = Some (False, m)" by simp
  then show ?thesis
    by (simp add: sample_warped_def r assms(3))
qed

text \<open>The warped branch.\<close>

lemma warped_branch:
  assumes "0 < width M" and "\<not> snd (pole_is_covered S)" and "\<exists>a<180. sample_warped M S a"
  shows "\<exists>pts ssx ssy.
       footprint_loop M S [0..<180] ([], False, goo_canvas_points_new 360)
         = Some (fst (north_pole_is_covered S), True, pts)
     \<and> length pts = 360 \<and> list_all (in_width M) pts
     \<and> lonlat_to_xy M (ssplon S) (ssplat S) = Some (ssx, ssy) \<and> 0 \<le> ssx \<and> ssx \<le> width M
     \<and> calculate_footprint M S
         = Some (fst (north_pole_is_covered S) @ fst (pole_is_covered S) @ [WARPED]
                   @ fst (split_points M S ssx pts),
                 snd (split_points M S ssx pts))"
proof -
  have w: "(\<exists>a<180. sample_warped M S a) = True"
    using assms(3) by simp
  from footprint_points [OF assms(1), of S] obtain pts where
    lp: "footprint_loop M S [0..<180] ([], False, goo_canvas_points_new 360)
           = Some (fst (north_pole_is_covered S), True, pts)"
        "length pts = 360" "list_all (in_width M) pts"
    unfolding w by blast
  from lonlat_to_xy_returns [OF assms(1), of "ssplon S" "ssplat S"] obtain ssx ssy where
    ss: "lonlat_to_xy M (ssplon S) (ssplat S) = Some (ssx, ssy)" "0 \<le> ssx" "ssx \<le> width M"
    by blast
  obtain lgp where c: "pole_is_covered S = (lgp, False)"
    using assms(2) by (cases "pole_is_covered S") auto
  have "calculate_footprint M S
         = Some (fst (north_pole_is_covered S) @ fst (pole_is_covered S) @ [WARPED]
                   @ fst (split_points M S ssx pts),
                 snd (split_points M S ssx pts))"
    by (simp add: calculate_footprint_def lp(1) c ss(1) split: prod.splits)
  with lp ss show ?thesis by blast
qed

lemma beta_2000:
  "5 * pi / 180 < 1000 / xkmper" "1000 / xkmper < 1"
  using pi_less_4 by (simp_all add: xkmper_def)

text \<open>Over the equator, with a footprint of 2000 km and the satellite within 5 degrees
  east of the left side of the map at -180, the pass for azimuth 90 sets warpedT.\<close>

lemma warp_at_90:
  assumes "ssplat S = 0" "footprint S = 2000" "- 180 \<le> ssplon S" "ssplon S \<le> - 175"
    and "left_side_lon M = - 180"
  shows "sample_warped M S 90"
proof -
  define beta where "beta = 1000 / xkmper"
  define r0 where "r0 = ssplon S * de2ra - beta"
  have b: "5 * pi / 180 < beta" "beta < 1"
    unfolding beta_def by (rule beta_2000)+
  have b0: "0 \<le> beta" "beta \<le> pi" "beta < pi / 2" "- (pi / 2) < beta"
    using b pi_ge_two by auto
  have cb: "0 < cos beta"
    using b0 by (intro cos_gt_zero_pi) simp_all
  have ac: "arccos (cos beta) = beta"
    using b0 by (intro arccos_cos) simp_all
  have az: "cos (de2ra * real (90::nat)) = 0"
    by (simp add: de2ra_def)
  have axy: "arccos_xy (cos beta) 1 = beta"
    using cb by (simp add: arccos_xy_def ac)
  have aq: "\<not> abs_quotient_gt_1 (cos beta) 1"
    using abs_cos_le_one [of beta] by (simp add: abs_quotient_gt_1_def not_less)
  have be: "0.5 * footprint S / xkmper = beta"
    by (simp add: assms(2) beta_def)
  have rc: "range_circle_rad S 90 = ([], r0, 0)"
    unfolding range_circle_rad_def Let_def be az assms(1)
    using aq axy by (simp add: r0_def)
  have "ssplon S * pi \<le> (- 175) * pi"
    using assms(4) by (intro mult_right_mono) simp_all
  moreover have "(- 180) * pi \<le> ssplon S * pi"
    using assms(3) by (intro mult_right_mono) simp_all
  ultimately have lo: "ssplon S * de2ra \<le> - 175 * pi / 180" "- pi \<le> ssplon S * de2ra"
    by (simp_all add: de2ra_def)
  have r1: "r0 < - pi" using lo b by (simp add: r0_def)
  have r2: "\<not> r0 + pi * 2 < - pi" using lo b0 by (simp add: r0_def)
  have r3: "\<not> r0 + pi * 2 > pi" using lo b by (simp add: r0_def)
  have r4: "0 < r0 + pi * 2" using lo b0 by (simp add: r0_def)
  have w1: "while_lt (- pi) (pi * 2) r0 = Some (r0 + pi * 2)"
    by (simp add: while_lt_go [OF r1] while_lt_stop [OF r2])
  have w2: "while_gt pi (pi * 2) (r0 + pi * 2) = Some (r0 + pi * 2)"
    by (rule while_gt_stop [OF r3])
  define rlon where "rlon = (r0 + pi * 2) / de2ra"
  have r: "range_circle S 90 = Some ([], rlon, 0)"
    by (simp add: range_circle_def rc w1 w2 rlon_def)
  have rl: "0 < rlon"
    unfolding rlon_def using r4 by (simp add: de2ra_def)
  from mirror_lon_value [of S rlon "- 180"] obtain m where
    "mirror_lon S rlon (- 180) = Some (True, m)"
    using assms(3,4) rl by auto
  then show ?thesis
    by (simp add: sample_warped_def r assms(5))
qed

lemma scan_up_all:
  "(\<forall>j. i \<le> j \<and> j < length pts \<longrightarrow> P (xc (pts ! j))) \<Longrightarrow> scan_up P pts i = Inl TypeError"
proof (induction P pts i rule: scan_up.induct)
  case (1 P points1 i)
  show ?case
  proof (cases "i \<ge> length points1")
    case True
    then show ?thesis by (subst scan_up.simps) simp
  next
    case False
    then have p: "P (xc (points1 ! i))" using "1.prems" by simp
    have "scan_up P points1 (i + 1) = Inl TypeError"
      using False p "1.prems" by (intro "1.IH") auto
    with False p show ?thesis by (subst scan_up.simps) simp
  qed
qed

lemma scan_down_all:
  "(\<forall>j. j < length pts \<and> int j \<le> i \<longrightarrow> P (xc (pts ! j))) \<Longrightarrow> scan_down P pts i = Inl TypeError"
proof (induction P pts i rule: scan_down.induct)
  case (1 P points1 i)
  show ?case
  proof (cases "i < 0 \<or> i \<ge> int (length points1)")
    case True
    then show ?thesis by (subst scan_down.simps) simp
  next
    case False
    then have "nat i < length points1" "int (nat i) \<le> i" by auto
    then have p: "P (xc (points1 ! nat i))" using "1.prems" by blast
    have "scan_down P points1 (i - 1) = Inl TypeError"
      using False p "1.prems" by (intro "1.IH") auto
    with False p show ?thesis by (subst scan_down.simps) simp
  qed
qed

section \<open>The domain of the arc sine\<close>

text \<open>The argument of \<^verbatim>\<open>Math.asin\<close> in the loop is between -1 and 1.\<close>

lemma asin_argument_in_range:
  "\<bar>sin a * cos b + cos z * sin b * cos a\<bar> \<le> 1" for a b z :: real
proof -
  define u where "u = cos z"
  have u: "- 1 \<le> u" "u \<le> 1" by (simp_all add: u_def)
  have e: "sin a * cos b + u * sin b * cos a
             = ((1 + u) / 2) * sin (a + b) + ((1 - u) / 2) * sin (a - b)"
    unfolding sin_add sin_diff by (simp add: field_simps)
  define p where "p = ((1 + u) / 2) * sin (a + b)"
  define q where "q = ((1 - u) / 2) * sin (a - b)"
  have "\<bar>p\<bar> \<le> ((1 + u) / 2) * 1"
    unfolding p_def abs_mult using u by (intro mult_mono) simp_all
  moreover have "\<bar>q\<bar> \<le> ((1 - u) / 2) * 1"
    unfolding q_def abs_mult using u by (intro mult_mono) simp_all
  moreover have "\<bar>p + q\<bar> \<le> \<bar>p\<bar> + \<bar>q\<bar>" by (rule abs_triangle_ineq)
  ultimately have "\<bar>p + q\<bar> \<le> 1" by simp
  then have "\<bar>((1 + u) / 2) * sin (a + b) + ((1 - u) / 2) * sin (a - b)\<bar> \<le> 1"
    by (simp add: p_def q_def)
  then have "\<bar>sin a * cos b + u * sin b * cos a\<bar> \<le> 1"
    by (simp only: e)
  then show ?thesis by (simp only: u_def)
qed

section \<open>A map whose origin is zero\<close>

text \<open>With the origin at x = 0 the nominal points lie between the borders of the map.\<close>

lemma nominal_branch_origin_zero:
  assumes "0 < width M" and "x0 M = 0"
    and "\<not> snd (pole_is_covered S)" and "\<not> (\<exists>a<180. sample_warped M S a)"
  shows "\<exists>lg p1. calculate_footprint M S = Some (lg, Inr (p1, []))
     \<and> length p1 = 360
     \<and> list_all (\<lambda>p. x0 M \<le> xc p \<and> xc p \<le> x0 M + width M) p1"
proof -
  from nominal_branch [OF assms(1,3,4)] obtain p1 where
    p: "calculate_footprint M S
          = Some (fst (north_pole_is_covered S) @ fst (pole_is_covered S), Inr (p1, []))"
       "length p1 = 360" "list_all (in_width M) p1"
    by blast
  from p(3) have "list_all (\<lambda>p. x0 M \<le> xc p \<and> xc p \<le> x0 M + width M) p1"
    by (simp add: list_all_iff in_width_def assms(2))
  with p(1,2) show ?thesis by blast
qed

text \<open>With the origin at x = 0 the polyline of the pole-covered branch is non-decreasing
  in x.\<close>

lemma pole_covered_branch_origin_zero:
  assumes "0 < width M" and "x0 M = 0" and "snd (pole_is_covered S)"
  shows "\<exists>lg p1. calculate_footprint M S = Some (lg, Inr (p1, []))
     \<and> length p1 = 360 \<and> sorted (map xc p1)
     \<and> xc (p1 ! 1) = x0 M \<and> xc (p1 ! 358) = x0 M + width M
     \<and> p1 ! 0 = \<lparr>xc = x0 M, yc = (if ssplat S > 0 then y0 M else y0 M + height M)\<rparr>
     \<and> p1 ! 359 = \<lparr>xc = x0 M + width M, yc = (if ssplat S > 0 then y0 M else y0 M + height M)\<rparr>"
proof -
  from pole_covered_branch [OF assms(1,3)] obtain p1 pts where
    p: "calculate_footprint M S
          = Some (fst (north_pole_is_covered S) @ fst (pole_is_covered S), Inr (p1, []))"
       "length pts = 360" "list_all (in_width M) pts" "length p1 = 360"
       "p1 ! 0 = \<lparr>xc = x0 M, yc = (if ssplat S > 0 then y0 M else y0 M + height M)\<rparr>"
       "xc (p1 ! 1) = x0 M" "xc (p1 ! 358) = x0 M + width M"
       "p1 ! 359 = \<lparr>xc = x0 M + width M, yc = (if ssplat S > 0 then y0 M else y0 M + height M)\<rparr>"
       "\<forall>i. 2 \<le> i \<and> i < 358 \<longrightarrow> p1 ! i = sort_key xc pts ! i"
    by blast
  let ?s = "sort_key xc pts"
  have srt: "sorted (map xc ?s)" by (rule sorted_sort_key)
  have inner: "xc (p1 ! i) = xc (?s ! i) \<and> 0 \<le> xc (?s ! i) \<and> xc (?s ! i) \<le> width M"
    if "2 \<le> i" "i < 358" for i
  proof -
    have "in_width M (?s ! i)"
      using that p(2) by (intro sort_key_nth_in_width [OF p(3)]) simp
    with that p(9) show ?thesis by (simp add: in_width_def)
  qed
  have lo: "xc (p1 ! i) = 0" if "i < 2" for i
  proof -
    from that have "i = 0 \<or> i = 1" by auto
    then show ?thesis using p(5,6) assms(2) by auto
  qed
  have hi: "xc (p1 ! i) = width M" if "358 \<le> i" "i < 360" for i
  proof -
    from that have "i = 358 \<or> i = 359" by auto
    then show ?thesis using p(7,8) assms(2) by auto
  qed
  have rng: "0 \<le> xc (p1 ! i) \<and> xc (p1 ! i) \<le> width M" if "i < 360" for i
  proof -
    consider "i < 2" | "2 \<le> i" "i < 358" | "358 \<le> i" using that by linarith
    then show ?thesis
      using lo [of i] hi [of i] inner [of i] that assms(1) by cases auto
  qed
  have mono: "xc (p1 ! i) \<le> xc (p1 ! j)" if "i \<le> j" "j < 360" for i j
  proof -
    consider "i < 2" | "358 \<le> j" | "2 \<le> i" "j < 358" by linarith
    then show ?thesis
    proof cases
      case 1
      then show ?thesis using lo [of i] rng [of j] that by simp
    next
      case 2
      then show ?thesis using hi [of j] rng [of i] that by simp
    next
      case 3
      have "map xc ?s ! i \<le> map xc ?s ! j"
        using that p(2) by (intro sorted_nth_mono [OF srt]) simp_all
      then have "xc (?s ! i) \<le> xc (?s ! j)"
        using that p(2) by simp
      then show ?thesis
        using inner [of i] inner [of j] 3 that by simp
    qed
  qed
  have "sorted (map xc p1)"
    unfolding sorted_iff_nth_mono using mono p(4) by simp
  with p show ?thesis by blast
qed

section \<open>What the split returns\<close>

lemma scan_up_Inr:
  "scan_up P pts i = Inr j \<Longrightarrow> i \<le> j \<and> j < length pts \<and> \<not> P (xc (pts ! j))"
proof (induction P pts i rule: scan_up.induct)
  case (1 P points1 i)
  show ?case
  proof (cases "i \<ge> length points1")
    case True
    with "1.prems" show ?thesis by (subst (asm) scan_up.simps) simp
  next
    case False
    show ?thesis
    proof (cases "P (xc (points1 ! i))")
      case True
      with False "1.prems" have "scan_up P points1 (i + 1) = Inr j"
        by (subst (asm) scan_up.simps) simp
      from "1.IH" [OF _ True this] False show ?thesis by simp
    next
      case n: False
      with False "1.prems" have "j = i" by (subst (asm) scan_up.simps) simp
      with False n show ?thesis by simp
    qed
  qed
qed

lemma copy_up_Inr:
  "copy_up P pts i acc = Inr (j, acc') \<Longrightarrow>
     i \<le> j \<and> j < length pts \<and> length acc' = length acc + (j - i)
     \<and> (P (xc (pts ! i)) \<longrightarrow> i < j)"
proof (induction P pts i acc rule: copy_up.induct)
  case (1 P points1 i tps2)
  show ?case
  proof (cases "i \<ge> length points1")
    case True
    with "1.prems" show ?thesis by (subst (asm) copy_up.simps) simp
  next
    case False
    show ?thesis
    proof (cases "P (xc (points1 ! i))")
      case True
      with False "1.prems" have "copy_up P points1 (i + 1) (tps2 @ [points1 ! i]) = Inr (j, acc')"
        by (subst (asm) copy_up.simps) simp
      from "1.IH" [OF _ True this] False show ?thesis by auto
    next
      case n: False
      with False "1.prems" have "j = i" "acc' = tps2" by (subst (asm) copy_up.simps, simp)+
      with False n show ?thesis by simp
    qed
  qed
qed

lemma scan_down_Inr:
  "scan_down P pts i = Inr j \<Longrightarrow>
     0 \<le> j \<and> j \<le> i \<and> i < int (length pts) \<and> \<not> P (xc (pts ! nat j))"
proof (induction P pts i rule: scan_down.induct)
  case (1 P points1 i)
  show ?case
  proof (cases "i < 0 \<or> i \<ge> int (length points1)")
    case True
    with "1.prems" show ?thesis by (subst (asm) scan_down.simps) simp
  next
    case False
    show ?thesis
    proof (cases "P (xc (points1 ! nat i))")
      case True
      with False "1.prems" have "scan_down P points1 (i - 1) = Inr j"
        by (subst (asm) scan_down.simps) simp
      from "1.IH" [OF _ True this] False show ?thesis by simp
    next
      case n: False
      with False "1.prems" have "j = i" by (subst (asm) scan_down.simps) simp
      with False n show ?thesis by simp
    qed
  qed
qed

lemma copy_down_Inr:
  "copy_down P pts i acc = Inr (j, acc') \<Longrightarrow>
     0 \<le> j \<and> j \<le> i \<and> i < int (length pts) \<and> length acc' = length acc + nat (i - j)
     \<and> (P (xc (pts ! nat i)) \<longrightarrow> j < i)"
proof (induction P pts i acc rule: copy_down.induct)
  case (1 P points1 i tps2)
  show ?case
  proof (cases "i < 0 \<or> i \<ge> int (length points1)")
    case True
    with "1.prems" show ?thesis by (subst (asm) copy_down.simps) simp
  next
    case False
    show ?thesis
    proof (cases "P (xc (points1 ! nat i))")
      case True
      with False "1.prems"
      have "copy_down P points1 (i - 1) (tps2 @ [points1 ! nat i]) = Inr (j, acc')"
        by (subst (asm) copy_down.simps) simp
      from "1.IH" [OF _ True this] False show ?thesis by auto
    next
      case n: False
      with False "1.prems" have "j = i" "acc' = tps2" by (subst (asm) copy_down.simps, simp)+
      with False n show ?thesis by simp
    qed
  qed
qed

lemma set_x_Inr:
  "set_x ps i v = Inr ps' \<Longrightarrow>
     0 \<le> i \<and> i < int (length ps) \<and> ps' = ps[nat i := (ps ! nat i)\<lparr>xc := v\<rparr>]"
  by (auto simp add: set_x_def split: if_splits)

lemma set_x_ends:
  assumes "set_x t 0 v = Inr a" and "set_x a (int (length t) - 1) v = Inr b"
  shows "t \<noteq> [] \<and> b \<noteq> [] \<and> length b = length t \<and> xc (hd b) = v \<and> xc (last b) = v"
proof -
  from set_x_Inr [OF assms(1)] have
    a: "0 < length t" "a = t[0 := (t ! 0)\<lparr>xc := v\<rparr>]" by auto
  then have la: "length a = length t" by simp
  from set_x_Inr [OF assms(2)] have
    b: "b = a[nat (int (length t) - 1) := (a ! nat (int (length t) - 1))\<lparr>xc := v\<rparr>]" by auto
  have n: "nat (int (length t) - 1) = length t - 1" by simp
  have lb: "length b = length t" using b la by simp
  have ne: "b \<noteq> []" "t \<noteq> []" using lb a(1) by auto
  have "xc (b ! (length t - 1)) = v"
    using a(1) la unfolding b n by simp
  then have l: "xc (last b) = v"
    using ne lb by (simp add: last_conv_nth)
  have "xc (b ! 0) = v"
  proof (cases "length t - 1 = 0")
    case True
    then show ?thesis using a(1) la unfolding b n by simp
  next
    case False
    then have "b ! 0 = a ! 0" unfolding b n by simp
    then show ?thesis using a by simp
  qed
  then have h: "xc (hd b) = v"
    using ne by (simp add: hd_conv_nth)
  from ne lb h l show ?thesis by simp
qed

text \<open>When the border-stretching step returns, both arrays are non-empty, keep their
  lengths, and have their ends on opposite borders of the map.\<close>

lemma stretch_end_points_Inr:
  assumes "stretch_end_points M t1 t2 = Inr (p1, p2)"
  shows "p1 \<noteq> [] \<and> p2 \<noteq> [] \<and> length p1 = length t1 \<and> length p2 = length t2
     \<and> ((xc (hd p1) = x0 M + width M \<and> xc (last p1) = x0 M + width M
          \<and> xc (hd p2) = x0 M \<and> xc (last p2) = x0 M)
        \<or> (xc (hd p2) = x0 M + width M \<and> xc (last p2) = x0 M + width M
          \<and> xc (hd p1) = x0 M \<and> xc (last p1) = x0 M))"
proof (cases "xc (t1 ! 0) > x0 M + width M / 2")
  case True
  with assms obtain a b where
    s: "set_x t1 0 (x0 M + width M) = Inr a"
       "set_x a (int (length t1) - 1) (x0 M + width M) = Inr p1"
       "set_x t2 0 (x0 M) = Inr b"
       "set_x b (int (length t2) - 1) (x0 M) = Inr p2"
    by (auto simp add: stretch_end_points_def Let_def split: if_splits sum.splits)
  from set_x_ends [OF s(1,2)] set_x_ends [OF s(3,4)] show ?thesis by simp
next
  case False
  with assms obtain a b where
    s: "set_x t2 0 (x0 M + width M) = Inr b"
       "set_x b (int (length t2) - 1) (x0 M + width M) = Inr p2"
       "set_x t1 0 (x0 M) = Inr a"
       "set_x a (int (length t1) - 1) (x0 M) = Inr p1"
    by (auto simp add: stretch_end_points_def Let_def split: if_splits sum.splits)
  from set_x_ends [OF s(1,2)] set_x_ends [OF s(3,4)] show ?thesis by simp
qed

text \<open>When \<^verbatim>\<open>split_points\<close> returns, it returns two non-empty polylines that together have
  as many points as the array it was given, the ends of one on the right border and the
  ends of the other on the left border.\<close>

lemma split_points_Inr:
  assumes "snd (split_points M S sspx pts) = Inr (p1, p2)"
  shows "p1 \<noteq> [] \<and> p2 \<noteq> [] \<and> length p1 + length p2 = length pts
     \<and> ((xc (hd p1) = x0 M + width M \<and> xc (last p1) = x0 M + width M
          \<and> xc (hd p2) = x0 M \<and> xc (last p2) = x0 M)
        \<or> (xc (hd p2) = x0 M + width M \<and> xc (last p2) = x0 M + width M
          \<and> xc (hd p1) = x0 M \<and> xc (last p1) = x0 M))"
proof -
  define mid where "mid = x0 M + width M / 2"
  consider (seam) "ssplon S \<ge> 179.4 \<or> ssplon S \<le> - 179.4"
    | (left) "\<not> (ssplon S \<ge> 179.4 \<or> ssplon S \<le> - 179.4)" "sspx < mid"
    | (right) "\<not> (ssplon S \<ge> 179.4 \<or> ssplon S \<le> - 179.4)" "\<not> sspx < mid"
    by blast
  then obtain t1 t2 where
    st: "stretch_end_points M t1 t2 = Inr (p1, p2)" and len: "length t1 + length t2 = length pts"
  proof cases
    case seam
    let ?t1 = "sort_points_y M S (filter (\<lambda>p. xc p > mid) pts)"
    let ?t2 = "sort_points_y M S (filter (\<lambda>p. \<not> xc p > mid) pts)"
    from assms seam have "stretch_end_points M ?t1 ?t2 = Inr (p1, p2)"
      by (simp add: split_points_def Let_def mid_def)
    moreover have "length ?t1 + length ?t2 = length pts"
      by (simp add: sort_points_y_def sum_length_filter_compl)
    ultimately show ?thesis by (rule that)
  next
    case left
    from assms left obtain i0 i1 tps2 where
      sc: "scan_up (\<lambda>x. x \<le> mid) pts 0 = Inr i0"
          "copy_up (\<lambda>x. x > mid) pts i0 [] = Inr (i1, tps2)"
      and se: "stretch_end_points M
                 (map (\<lambda>i. pts ! i) [i1..<length pts] @ map (\<lambda>i. pts ! nat i) [0..int i0 - 1])
                 tps2 = Inr (p1, p2)"
      by (auto simp add: split_points_def Let_def mid_def split: sum.splits)
    from scan_up_Inr [OF sc(1)] have i0: "i0 < length pts" by simp
    from copy_up_Inr [OF sc(2)] have i1: "i0 \<le> i1" "i1 < length pts" "length tps2 = i1 - i0"
      by simp_all
    have "length (map (\<lambda>i. pts ! i) [i1..<length pts] @ map (\<lambda>i. pts ! nat i) [0..int i0 - 1])
            + length tps2 = length pts"
      using i0 i1 by simp
    with se show ?thesis by (rule that)
  next
    case right
    from assms right obtain j0 j1 tps2 where
      sc: "scan_down (\<lambda>x. x \<ge> mid) pts (int (length pts) - 1) = Inr j0"
          "copy_down (\<lambda>x. x < mid) pts j0 [] = Inr (j1, tps2)"
      and se: "stretch_end_points M
                 (map (\<lambda>i. pts ! nat i) (rev [0..j1])
                    @ map (\<lambda>i. pts ! nat i) (rev [j0 + 1..int (length pts) - 1]))
                 tps2 = Inr (p1, p2)"
      by (auto simp add: split_points_def Let_def mid_def split: sum.splits)
    from scan_down_Inr [OF sc(1)] have j0: "0 \<le> j0" "j0 \<le> int (length pts) - 1" by simp_all
    from copy_down_Inr [OF sc(2)] have j1: "0 \<le> j1" "j1 \<le> j0" "length tps2 = nat (j0 - j1)"
      by simp_all
    have "length (map (\<lambda>i. pts ! nat i) (rev [0..j1])
                    @ map (\<lambda>i. pts ! nat i) (rev [j0 + 1..int (length pts) - 1]))
            + length tps2 = length pts"
      using j0 j1 by simp
    with se show ?thesis by (rule that)
  qed
  from stretch_end_points_Inr [OF st] len show ?thesis by simp
qed

text \<open>When \<^verbatim>\<open>calculate_footprint\<close> returns from the warped branch, it returns two non-empty
  polylines of 360 points in all, with their ends on opposite borders.\<close>

lemma warped_branch_returned:
  assumes "0 < width M" and "\<not> snd (pole_is_covered S)" and "\<exists>a<180. sample_warped M S a"
    and "calculate_footprint M S = Some (lg, Inr (p1, p2))"
  shows "p1 \<noteq> [] \<and> p2 \<noteq> [] \<and> length p1 + length p2 = 360
     \<and> ((xc (hd p1) = x0 M + width M \<and> xc (last p1) = x0 M + width M
          \<and> xc (hd p2) = x0 M \<and> xc (last p2) = x0 M)
        \<or> (xc (hd p2) = x0 M + width M \<and> xc (last p2) = x0 M + width M
          \<and> xc (hd p1) = x0 M \<and> xc (last p1) = x0 M))"
proof -
  from warped_branch [OF assms(1-3)] obtain pts ssx where
    p: "length pts = 360"
       "calculate_footprint M S
         = Some (fst (north_pole_is_covered S) @ fst (pole_is_covered S) @ [WARPED]
                   @ fst (split_points M S ssx pts),
                 snd (split_points M S ssx pts))"
    by blast
  from p(2) assms(4) have "snd (split_points M S ssx pts) = Inr (p1, p2)" by simp
  from split_points_Inr [OF this] p(1) show ?thesis by simp
qed

section \<open>A map whose origin is not zero\<close>

lemma example_map_simps:
  "left_side_lon (example_map ox) = - 180" "width (example_map ox) = 720"
  "height (example_map ox) = 360" "x0 (example_map ox) = ox" "y0 (example_map ox) = 0"
  by (simp_all add: example_map_def)

text \<open>
  C4 says that in the nominal case the first polyline has 360 points, the second is empty
  and every \<open>x\<close> lies in \<open>[origin_x, origin_x + pixel_width]\<close>. The count and the empty
  second polyline hold (\<open>nominal_branch\<close>), but \<^verbatim>\<open>lonlat_to_xy\<close> adds \<open>x0\<close> and then wraps
  \<open>x\<close> into \<open>[0, width]\<close>, not into \<open>[x0, x0 + width]\<close>. On the 720 by 360 map with its
  origin at \<open>x = 1000\<close>, for the satellite over \<open>(0, 0)\<close> with a footprint of 2000 km, no
  pole is covered, no pass is warped, and every returned point has \<open>x \<le> 720 < 1000\<close>.
  With the origin at \<open>x = 0\<close> the claim holds (\<open>nominal_branch_origin_zero\<close>).
\<close>

theorem nominal_points_left_of_origin:
  "pole_is_covered \<lparr>ssplat = 0, ssplon = 0, footprint = 2000\<rparr> = ([], False)
   \<and> \<not> (\<exists>a<180. sample_warped (example_map 1000) \<lparr>ssplat = 0, ssplon = 0, footprint = 2000\<rparr> a)
   \<and> (\<exists>p1. calculate_footprint (example_map 1000) \<lparr>ssplat = 0, ssplon = 0, footprint = 2000\<rparr>
              = Some ([], Inr (p1, []))
         \<and> length p1 = 360 \<and> list_all (in_width (example_map 1000)) p1
         \<and> xc (p1 ! 0) \<le> 720 \<and> 720 < x0 (example_map 1000))"
proof -
  let ?S = "\<lparr>ssplat = 0, ssplon = 0, footprint = 2000\<rparr>"
  let ?M = "example_map 1000"
  have np: "north_pole_is_covered ?S = ([], False)" "pole_is_covered ?S = ([], False)"
    by (rule equator_no_pole; simp add: valid_lon_def)+
  have nw: "\<not> (\<exists>a<180. sample_warped ?M ?S a)"
    using no_warp_centre [of ?S ?M] np(1) by (simp add: example_map_simps)
  have w: "0 < width ?M" by (simp add: example_map_simps)
  from nominal_branch [OF w _ nw] np obtain p1 where
    p: "calculate_footprint ?M ?S = Some ([], Inr (p1, []))" "length p1 = 360"
       "list_all (in_width ?M) p1"
    by auto
  from p(2,3) have "in_width ?M (p1 ! 0)"
    by (simp add: list_all_length)
  then have "xc (p1 ! 0) \<le> 720"
    by (simp add: in_width_def example_map_simps)
  with np nw p show ?thesis
    by (simp add: example_map_simps)
qed

text \<open>
  C5 says that when a pole is covered the single polyline of 360 points is non-decreasing
  in \<open>x\<close>, with its 2nd and 359th points on \<open>origin_x\<close> and \<open>origin_x + pixel_width\<close> and
  its ends in the corners. The anchors are as claimed (\<open>pole_covered_branch\<close>), but the
  points between them come from \<^verbatim>\<open>lonlat_to_xy\<close> and lie in \<open>[0, width]\<close>. On the map with
  its origin at \<open>x = 1000\<close>, for the satellite at latitude 85 with a footprint of 4000 km,
  the 2nd point has \<open>x = 1000\<close> and the 3rd has \<open>x \<le> 720\<close>: the polyline decreases.
  With the origin at \<open>x = 0\<close> the claim holds (\<open>pole_covered_branch_origin_zero\<close>).
\<close>

theorem pole_polyline_not_monotone:
  "snd (pole_is_covered \<lparr>ssplat = 85, ssplon = 0, footprint = 4000\<rparr>)
   \<and> (\<exists>p1. calculate_footprint (example_map 1000) \<lparr>ssplat = 85, ssplon = 0, footprint = 4000\<rparr>
              = Some ([], Inr (p1, []))
         \<and> length p1 = 360 \<and> xc (p1 ! 1) = 1000 \<and> xc (p1 ! 2) \<le> 720)"
proof -
  let ?S = "\<lparr>ssplat = 85, ssplon = 0, footprint = 4000\<rparr>"
  let ?M = "example_map 1000"
  have pc: "pole_is_covered ?S = ([], True)"
    by (simp add: pole_is_covered_def lat85_north_pole)
  then have c: "snd (pole_is_covered ?S)" by simp
  have w: "0 < width ?M" by (simp add: example_map_simps)
  from pole_covered_branch [OF w c] obtain p1 pts where
    p: "calculate_footprint ?M ?S = Some ([], Inr (p1, []))"
       "length pts = 360" "list_all (in_width ?M) pts" "length p1 = 360"
       "xc (p1 ! 1) = x0 ?M" "p1 ! 2 = sort_key xc pts ! 2"
    by (auto simp add: pc lat85_north_pole)
  from sort_key_nth_in_width [OF p(3), of 2] p(2,6) have "in_width ?M (p1 ! 2)"
    by simp
  then have "xc (p1 ! 2) \<le> 720"
    by (simp add: in_width_def example_map_simps)
  with c p show ?thesis
    by (auto simp add: example_map_simps)
qed

lemma all_left_of_mid:
  assumes "list_all (in_width (example_map 1000)) pts"
  shows "\<forall>p\<in>set pts. xc p \<le> 1360"
  using assms by (auto simp add: list_all_iff in_width_def example_map_simps)

text \<open>
  C6 says that in the warped branch two non-empty polylines are returned, 360 points in
  all, the ends of one on \<open>origin_x + pixel_width\<close> and of the other on \<open>origin_x\<close>. On
  the map with its origin at \<open>x = 1000\<close>, for the satellite over \<open>(-180, 0)\<close> with a
  footprint of 2000 km, no pole is covered and the pass for azimuth 90 is warped; no
  point has \<open>x\<close> above the middle \<open>x0 + width / 2 = 1360\<close>, the first array is empty, and
  reading \<^verbatim>\<open>points1[0].x\<close> throws: nothing is returned. Whenever the branch does
  return, what it returns is as claimed (\<open>warped_branch_returned\<close>).
\<close>

theorem split_seam_throws:
  "pole_is_covered \<lparr>ssplat = 0, ssplon = - 180, footprint = 2000\<rparr> = ([], False)
   \<and> sample_warped (example_map 1000) \<lparr>ssplat = 0, ssplon = - 180, footprint = 2000\<rparr> 90
   \<and> calculate_footprint (example_map 1000) \<lparr>ssplat = 0, ssplon = - 180, footprint = 2000\<rparr>
       = Some ([WARPED, Split 1], Inl TypeError)"
proof -
  let ?S = "\<lparr>ssplat = 0, ssplon = - 180, footprint = 2000\<rparr>"
  let ?M = "example_map 1000"
  have np: "north_pole_is_covered ?S = ([], False)" "pole_is_covered ?S = ([], False)"
    by (rule equator_no_pole; simp add: valid_lon_def)+
  have sw: "sample_warped ?M ?S 90"
    by (rule warp_at_90) (simp_all add: example_map_simps)
  then have ex: "\<exists>a<180. sample_warped ?M ?S a" by (intro exI [of _ 90]) simp
  have w: "0 < width ?M" by (simp add: example_map_simps)
  from warped_branch [OF w _ ex] np obtain pts ssx where
    p: "list_all (in_width ?M) pts"
       "calculate_footprint ?M ?S
          = Some ([WARPED] @ fst (split_points ?M ?S ssx pts), snd (split_points ?M ?S ssx pts))"
    by auto
  have "filter (\<lambda>p. xc p > 1360) pts = []"
    using all_left_of_mid [OF p(1)] by (auto simp add: filter_empty_conv not_less)
  then have "split_points ?M ?S ssx pts = ([Split 1], Inl TypeError)"
    by (simp add: split_points_def Let_def example_map_simps sort_points_y_def
        stretch_end_points_def)
  with p(2) np sw show ?thesis by simp
qed

text \<open>
  C7 says that every array access of \<^verbatim>\<open>split_points\<close> is in bounds when it is called. On
  the map with its origin at \<open>x = 1000\<close>, for the satellite over \<open>(-175, 0)\<close> with a
  footprint of 2000 km, \<^verbatim>\<open>split_points\<close> is called and takes the branch left of the
  middle; every point has \<open>x \<le> 1360\<close>, so the first scan
  \<^verbatim>\<open>while (points1[i].x <= x0 + width / 2) i++\<close> reaches index 360 and the read throws.
\<close>

theorem split_scan_out_of_bounds:
  "pole_is_covered \<lparr>ssplat = 0, ssplon = - 175, footprint = 2000\<rparr> = ([], False)
   \<and> sample_warped (example_map 1000) \<lparr>ssplat = 0, ssplon = - 175, footprint = 2000\<rparr> 90
   \<and> (\<exists>pts. footprint_loop (example_map 1000) \<lparr>ssplat = 0, ssplon = - 175, footprint = 2000\<rparr>
               [0..<180] ([], False, goo_canvas_points_new 360) = Some ([], True, pts)
          \<and> length pts = 360
          \<and> scan_up (\<lambda>x. x \<le> x0 (example_map 1000) + width (example_map 1000) / 2) pts 0
              = Inl TypeError)
   \<and> calculate_footprint (example_map 1000) \<lparr>ssplat = 0, ssplon = - 175, footprint = 2000\<rparr>
       = Some ([WARPED, Split 2], Inl TypeError)"
proof -
  let ?S = "\<lparr>ssplat = 0, ssplon = - 175, footprint = 2000\<rparr>"
  let ?M = "example_map 1000"
  have np: "north_pole_is_covered ?S = ([], False)" "pole_is_covered ?S = ([], False)"
    by (rule equator_no_pole; simp add: valid_lon_def)+
  have sw: "sample_warped ?M ?S 90"
    by (rule warp_at_90) (simp_all add: example_map_simps)
  then have ex: "\<exists>a<180. sample_warped ?M ?S a" by (intro exI [of _ 90]) simp
  have w: "0 < width ?M" by (simp add: example_map_simps)
  from warped_branch [OF w _ ex] np obtain pts ssx where
    p: "footprint_loop ?M ?S [0..<180] ([], False, goo_canvas_points_new 360)
          = Some ([], True, pts)"
       "length pts = 360"
       "list_all (in_width ?M) pts" "ssx \<le> width ?M"
       "calculate_footprint ?M ?S
          = Some ([WARPED] @ fst (split_points ?M ?S ssx pts), snd (split_points ?M ?S ssx pts))"
    by auto
  have sc: "scan_up (\<lambda>x. x \<le> 1360) pts 0 = Inl TypeError"
    using all_left_of_mid [OF p(3)] by (intro scan_up_all) simp
  have "ssx < 1360" using p(4) by (simp add: example_map_simps)
  then have "split_points ?M ?S ssx pts = ([Split 2], Inl TypeError)"
    by (simp add: split_points_def Let_def example_map_simps sc)
  with p np sw sc show ?thesis by (simp add: example_map_simps)
qed

section \<open>Coordinates out of range\<close>






end
